theory Spec2Isabelle
  imports Main
begin

section \<open>The byte buffer under the parser\<close>

text \<open>
  The parser reads its input through a Go \<open>bytes.Buffer\<close>. The buffer keeps the whole
  byte slice \<open>buf\<close>, the read offset \<open>off\<close> and the kind of the last read operation;
  \<open>Len\<close> and \<open>String\<close> look at the unread portion \<open>buf[off:]\<close> only. Bytes are
  \<open>char\<close>, a Go string is a \<open>string\<close>.
\<close>

datatype readOp = opInvalid | opRead

record Buffer =
  buf :: string
  off :: nat
  lastRead :: readOp

definition NewBuffer :: "string \<Rightarrow> Buffer" where
  "NewBuffer bs = \<lparr>buf = bs, off = 0, lastRead = opInvalid\<rparr>"

definition Len :: "Buffer \<Rightarrow> nat" where
  "Len b = length (buf b) - off b"

definition String :: "Buffer \<Rightarrow> string" where
  "String b = drop (off b) (buf b)"

text \<open>
  \<open>Next n\<close> returns the next \<open>n\<close> unread bytes (all of them when fewer are left) and
  advances the offset; it records a read operation when it returned at least one byte.
\<close>

definition Next :: "nat \<Rightarrow> Buffer \<Rightarrow> string \<times> Buffer" where
  "Next n b =
     (let m = Len b;
          k = (if n > m then m else n);
          data = take k (drop (off b) (buf b))
      in (data, b\<lparr>off := off b + k, lastRead := (if k > 0 then opRead else opInvalid)\<rparr>))"

text \<open>
  \<open>UnreadByte\<close> steps the offset back by one after a read operation and does nothing
  (but return an error value, which the parser never looks at) otherwise.
\<close>

definition UnreadByte :: "Buffer \<Rightarrow> Buffer" where
  "UnreadByte b =
     (if lastRead b = opInvalid then b
      else b\<lparr>off := (if off b > 0 then off b - 1 else off b), lastRead := opInvalid\<rparr>)"

section \<open>Run-time failures\<close>

text \<open>
  A Go slice expression \<open>s[lo:hi]\<close> panics unless \<open>0 \<le> lo \<le> hi \<le> len(s)\<close>; the
  object parser panics with the message \<open>Expected ':'\<close>. Nothing recovers from a panic,
  so a panic ends the parse.
\<close>

datatype error = SliceBoundsOutOfRange | ExpectedColon

definition slice :: "string \<Rightarrow> int \<Rightarrow> int \<Rightarrow> error + string" where
  "slice s lo hi =
     (if 0 \<le> lo \<and> lo \<le> hi \<and> hi \<le> int (length s)
      then Inr (take (nat (hi - lo)) (drop (nat lo) s))
      else Inl SliceBoundsOutOfRange)"

section \<open>The lexer\<close>

record JSONParser =
  input :: Buffer
  currentToken :: string

definition NewJSONParser :: "string \<Rightarrow> JSONParser" where
  "NewJSONParser bs = \<lparr>input = NewBuffer bs, currentToken = []\<rparr>"

definition isWhitespace :: "char \<Rightarrow> bool" where
  "isWhitespace c = (c = CHR '' '' \<or> c = CHR 0x0A \<or> c = CHR 0x0D \<or> c = CHR 0x09)"

definition isNumberByte :: "char \<Rightarrow> bool" where
  "isNumberByte c = (c \<in> set ''0123456789+-.eE'')"

function skipWhitespaces :: "JSONParser \<Rightarrow> JSONParser" where
  "skipWhitespaces p =
     (if Len (input p) > 0 then
        (let currentChar = fst (Next 1 (input p));
             p1 = p\<lparr>input := snd (Next 1 (input p))\<rparr>
         in if \<not> isWhitespace (hd currentChar)
            then p1\<lparr>input := UnreadByte (input p1)\<rparr>
            else skipWhitespaces p1)
      else p)"
  by pat_completeness auto
termination
  by (relation "measure (\<lambda>p. Len (input p))") (auto simp: Next_def Len_def Let_def)

text \<open>
  The string case of \<open>readNextToken\<close>: the loop reads one byte at a time; at a quote it
  stores \<open>String()[start : Len()-1]\<close> and leaves; at the end of the input it leaves
  with \<open>currentToken\<close> as it was.
\<close>

function stringLoop :: "int \<Rightarrow> JSONParser \<Rightarrow> error + JSONParser" where
  "stringLoop start p =
     (if Len (input p) > 0 then
        (let currentChar = fst (Next 1 (input p));
             p1 = p\<lparr>input := snd (Next 1 (input p))\<rparr>
         in if hd currentChar = CHR 0x22
            then (case slice (String (input p1)) start (int (Len (input p1)) - 1) of
                    Inl e \<Rightarrow> Inl e
                  | Inr tok \<Rightarrow> Inr (p1\<lparr>currentToken := tok\<rparr>))
            else stringLoop start p1)
      else Inr p)"
  by pat_completeness auto
termination
  by (relation "measure (\<lambda>(start, p). Len (input p))") (auto simp: Next_def Len_def Let_def)

text \<open>
  The default case: the loop reads bytes of \<open>0123456789+-.eE\<close>; at the first other byte
  it unreads that byte, stores \<open>String()[start : Len()]\<close> and leaves.
\<close>

function numberLoop :: "int \<Rightarrow> JSONParser \<Rightarrow> error + JSONParser" where
  "numberLoop start p =
     (if Len (input p) > 0 then
        (let currentChar = fst (Next 1 (input p));
             p1 = p\<lparr>input := snd (Next 1 (input p))\<rparr>
         in if \<not> isNumberByte (hd currentChar)
            then (let p2 = p1\<lparr>input := UnreadByte (input p1)\<rparr>
                  in case slice (String (input p2)) start (int (Len (input p2))) of
                       Inl e \<Rightarrow> Inl e
                     | Inr tok \<Rightarrow> Inr (p2\<lparr>currentToken := tok\<rparr>))
            else numberLoop start p1)
      else Inr p)"
  by pat_completeness auto
termination
  by (relation "measure (\<lambda>(start, p). Len (input p))") (auto simp: Next_def Len_def Let_def)

declare skipWhitespaces.simps [simp del] stringLoop.simps [simp del] numberLoop.simps [simp del]

text \<open>
  \<open>readNextToken\<close> returns the boolean of the source together with the parser after
  the call, or the panic that ended it. The cases of \<open>n\<close>, \<open>t\<close> and \<open>f\<close> are the
  same code but for the number of bytes and the word compared; \<open>literalCase\<close> is that
  code. It calls \<open>Next\<close> only when enough bytes are left (\<open>&&\<close> short-circuits), and
  returns false without touching \<open>currentToken\<close> when the comparison fails.
\<close>

definition literalCase :: "nat \<Rightarrow> string \<Rightarrow> JSONParser \<Rightarrow> error + (bool \<times> JSONParser)" where
  "literalCase n lit p =
     (if Len (input p) \<ge> n then
        (let w = fst (Next n (input p));
             p1 = p\<lparr>input := snd (Next n (input p))\<rparr>
         in if w = lit then Inr (True, p1\<lparr>currentToken := lit\<rparr>) else Inr (False, p1))
      else Inr (False, p))"

definition readNextToken :: "JSONParser \<Rightarrow> error + (bool \<times> JSONParser)" where
  "readNextToken p0 =
     (let p = skipWhitespaces p0 in
      if Len (input p) = 0 then Inr (False, p)
      else
        (let currentChar = fst (Next 1 (input p));
             p1 = p\<lparr>input := snd (Next 1 (input p))\<rparr>;
             c = hd currentChar
         in if c \<in> set ''{}[]:,'' then Inr (True, p1\<lparr>currentToken := currentChar\<rparr>)
            else if c = CHR ''n'' then literalCase 4 ''null'' p1
            else if c = CHR ''t'' then literalCase 4 ''true'' p1
            else if c = CHR ''f'' then literalCase 5 ''false'' p1
            else if c = CHR 0x22 then
              (case stringLoop (int (Len (input p1))) p1 of
                 Inl e \<Rightarrow> Inl e
               | Inr p2 \<Rightarrow> Inr (True, p2))
            else
              (case numberLoop (int (Len (input p1))) p1 of
                 Inl e \<Rightarrow> Inl e
               | Inr p2 \<Rightarrow> Inr (True, p2))))"

section \<open>The parser\<close>

text \<open>
  A \<open>JSONValue\<close> is the struct of the source: the \<open>Type\<close> string and the dynamically
  typed \<open>Value\<close>, which is \<open>nil\<close>, a \<open>float64\<close>, a string, a map from strings to values
  or a slice of values. The type \<open>'n\<close> stands for \<open>float64\<close>.
\<close>

datatype 'n JSONValue = JSONValue (Type: string) (Value: "'n payload")
  and 'n payload =
      NilValue
    | Float64 'n
    | Str string
    | MapValue "string \<Rightarrow> 'n JSONValue option"
    | SliceValue "'n JSONValue list"

type_synonym 'n outcome = "(error + 'n JSONValue \<times> JSONParser) option"

text \<open>
  The three parsing functions call each other, and the loops of \<open>parseObject\<close> and
  \<open>parseArray\<close> run until \<open>currentToken\<close> is the closing brace, which the input need
  not ever supply. The model counts calls and loop rounds against a bound: \<open>None\<close> says
  the bound was used up, \<open>Some (Inl e)\<close> that the parse panicked, \<open>Some (Inr (v, p))\<close>
  that it returned \<open>v\<close> and left the parser as \<open>p\<close>. A result reached with one bound
  is the result with every larger bound (\<open>fuel_mono\<close> below), so \<open>None\<close> for every
  bound says that the parse never returns.

  The conversion \<open>json.Number(s).Float64()\<close> belongs to the standard library; the
  functions take it as the parameter \<open>conv\<close>, which gives \<open>None\<close> where the library
  returns an error. The boolean of \<open>readNextToken\<close> is dropped at every call, as in the
  source.
\<close>

fun parseValue :: "(string \<Rightarrow> 'n option) \<Rightarrow> nat \<Rightarrow> JSONParser \<Rightarrow> 'n outcome"
  and parseObject :: "(string \<Rightarrow> 'n option) \<Rightarrow> nat \<Rightarrow> JSONParser \<Rightarrow> 'n outcome"
  and objectLoop ::
    "(string \<Rightarrow> 'n option) \<Rightarrow> nat \<Rightarrow> (string \<Rightarrow> 'n JSONValue option) \<Rightarrow> JSONParser \<Rightarrow> 'n outcome"
  and parseArray :: "(string \<Rightarrow> 'n option) \<Rightarrow> nat \<Rightarrow> JSONParser \<Rightarrow> 'n outcome"
  and arrayLoop ::
    "(string \<Rightarrow> 'n option) \<Rightarrow> nat \<Rightarrow> 'n JSONValue list \<Rightarrow> JSONParser \<Rightarrow> 'n outcome"
where
  "parseValue conv 0 p = None"
| "parseValue conv (Suc n) p =
     (case readNextToken p of
        Inl e \<Rightarrow> Some (Inl e)
      | Inr (ok, p1) \<Rightarrow>
          (let tok = currentToken p1 in
           if tok = ''null'' \<or> tok = ''true'' \<or> tok = ''false''
             then Some (Inr (JSONValue tok NilValue, p1))
           else if tok = ''{'' then parseObject conv n p1
           else if tok = ''['' then parseArray conv n p1
           else (case conv tok of
                   Some num \<Rightarrow> Some (Inr (JSONValue ''number'' (Float64 num), p1))
                 | None \<Rightarrow> Some (Inr (JSONValue ''string'' (Str tok), p1)))))"
| "parseObject conv 0 p = None"
| "parseObject conv (Suc n) p =
     (case readNextToken p of
        Inl e \<Rightarrow> Some (Inl e)
      | Inr (ok, p1) \<Rightarrow> objectLoop conv n Map.empty p1)"
| "objectLoop conv 0 obj p = None"
| "objectLoop conv (Suc n) obj p =
     (if currentToken p \<noteq> ''}'' then
        (let key = currentToken p in
         case readNextToken p of
           Inl e \<Rightarrow> Some (Inl e)
         | Inr (ok1, p1) \<Rightarrow>
             if currentToken p1 \<noteq> '':'' then Some (Inl ExpectedColon)
             else
               (case readNextToken p1 of
                  Inl e \<Rightarrow> Some (Inl e)
                | Inr (ok2, p2) \<Rightarrow>
                    (case parseValue conv n p2 of
                       None \<Rightarrow> None
                     | Some (Inl e) \<Rightarrow> Some (Inl e)
                     | Some (Inr (v, p3)) \<Rightarrow>
                         (case readNextToken p3 of
                            Inl e \<Rightarrow> Some (Inl e)
                          | Inr (ok3, p4) \<Rightarrow> objectLoop conv n (obj(key \<mapsto> v)) p4))))
      else Some (Inr (JSONValue ''object'' (MapValue obj), p)))"
| "parseArray conv 0 p = None"
| "parseArray conv (Suc n) p =
     (case readNextToken p of
        Inl e \<Rightarrow> Some (Inl e)
      | Inr (ok, p1) \<Rightarrow> arrayLoop conv n [] p1)"
| "arrayLoop conv 0 arr p = None"
| "arrayLoop conv (Suc n) arr p =
     (if currentToken p \<noteq> ''}'' then
        (case parseValue conv n p of
           None \<Rightarrow> None
         | Some (Inl e) \<Rightarrow> Some (Inl e)
         | Some (Inr (v, p1)) \<Rightarrow>
             (case readNextToken p1 of
                Inl e \<Rightarrow> Some (Inl e)
              | Inr (ok, p2) \<Rightarrow> arrayLoop conv n (arr @ [v]) p2))
      else Some (Inr (JSONValue ''array'' (SliceValue arr), p)))"

section \<open>Facts about the buffer and the lexer\<close>

lemma Len_String: "Len b = length (String b)"
  by (simp add: Len_def String_def)

lemma fst_Next: "fst (Next n b) = take n (String b)"
  by (auto simp: Next_def Let_def String_def Len_def)

lemma String_Next: "String (snd (Next n b)) = drop n (String b)"
  by (auto simp: Next_def Let_def String_def Len_def add.commute)

lemma Len_Next: "Len (snd (Next n b)) = Len b - n"
  by (simp add: Len_String String_Next)

lemma String_Unread_Next:
  "String b \<noteq> [] \<Longrightarrow> String (UnreadByte (snd (Next (Suc 0) b))) = String b"
  by (auto simp: Next_def Let_def String_def Len_def UnreadByte_def)

lemma skipWhitespaces_token: "currentToken (skipWhitespaces p) = currentToken p"
proof (induction p rule: skipWhitespaces.induct)
  case (1 p)
  show ?case
  proof (cases "Len (input p) > 0")
    case True
    then show ?thesis using 1
      by (subst skipWhitespaces.simps) (simp add: Let_def)
  next
    case False
    then show ?thesis by (subst skipWhitespaces.simps) simp
  qed
qed

lemma skipWhitespaces_String:
  "String (input (skipWhitespaces p)) = dropWhile isWhitespace (String (input p))"
proof (induction p rule: skipWhitespaces.induct)
  case (1 p)
  show ?case
  proof (cases "String (input p)")
    case Nil
    then show ?thesis by (subst skipWhitespaces.simps) (simp add: Len_String)
  next
    case (Cons c cs)
    then have pos: "Len (input p) > 0" by (simp add: Len_String)
    have hdc: "hd (fst (Next 1 (input p))) = c" using Cons by (simp add: fst_Next)
    show ?thesis
    proof (cases "isWhitespace c")
      case True
      then show ?thesis using 1 pos hdc Cons
        by (subst skipWhitespaces.simps) (simp add: Let_def String_Next)
    next
      case False
      then show ?thesis using pos hdc Cons
        by (subst skipWhitespaces.simps) (simp add: Let_def String_Unread_Next)
    qed
  qed
qed


lemma stringLoop_quote:
  "CHR 0x22 \<in> set (String (input p)) \<Longrightarrow> int (Len (input p)) \<le> start \<Longrightarrow>
   stringLoop start p = Inl SliceBoundsOutOfRange"
proof (induction start p rule: stringLoop.induct)
  case (1 start p)
  from "1.prems"(1) obtain c cs where Cons: "String (input p) = c # cs"
    by (cases "String (input p)") auto
  then have pos: "Len (input p) > 0" by (simp add: Len_String)
  have hdc: "hd (fst (Next 1 (input p))) = c" using Cons by (simp add: fst_Next)
  show ?case
  proof (cases "c = CHR 0x22")
    case True
    then show ?thesis using pos hdc Cons "1.prems"(2)
      by (subst stringLoop.simps) (simp add: Let_def slice_def Len_String String_Next)
  next
    case False
    let ?p1 = "p\<lparr>input := snd (Next 1 (input p))\<rparr>"
    have "CHR 0x22 \<in> set (String (input ?p1))"
      using "1.prems"(1) Cons False by (simp add: String_Next)
    moreover have "int (Len (input ?p1)) \<le> start"
      using "1.prems"(2) by (simp add: Len_Next)
    ultimately have "stringLoop start ?p1 = Inl SliceBoundsOutOfRange"
      using "1.IH"[OF pos refl refl] hdc False by simp
    then show ?thesis using pos hdc False
      by (subst stringLoop.simps) (simp add: Let_def)
  qed
qed

lemma stringLoop_no_quote:
  "CHR 0x22 \<notin> set (String (input p)) \<Longrightarrow>
   \<exists>b. stringLoop start p = Inr (p\<lparr>input := b\<rparr>) \<and> String b = []"
proof (induction start p rule: stringLoop.induct)
  case (1 start p)
  show ?case
  proof (cases "String (input p)")
    case Nil
    then have "stringLoop start p = Inr p"
      by (subst stringLoop.simps) (simp add: Len_String)
    then show ?thesis using Nil by (intro exI[of _ "input p"]) simp
  next
    case (Cons c cs)
    then have pos: "Len (input p) > 0" by (simp add: Len_String)
    have hdc: "hd (fst (Next 1 (input p))) = c" using Cons by (simp add: fst_Next)
    have ne: "c \<noteq> CHR 0x22" using "1.prems" Cons by auto
    let ?p1 = "p\<lparr>input := snd (Next 1 (input p))\<rparr>"
    have "CHR 0x22 \<notin> set (String (input ?p1))"
      using "1.prems" Cons by (simp add: String_Next)
    then obtain b where b: "stringLoop start ?p1 = Inr (?p1\<lparr>input := b\<rparr>)" "String b = []"
      using "1.IH"[OF pos refl refl] hdc ne by auto
    have "stringLoop start p = stringLoop start ?p1"
      using pos hdc ne by (subst stringLoop.simps) (simp add: Let_def)
    then show ?thesis using b by (intro exI[of _ b]) simp
  qed
qed

lemma numberLoop_all:
  "\<forall>c\<in>set (String (input p)). isNumberByte c \<Longrightarrow>
   \<exists>b. numberLoop start p = Inr (p\<lparr>input := b\<rparr>) \<and> String b = []"
proof (induction start p rule: numberLoop.induct)
  case (1 start p)
  show ?case
  proof (cases "String (input p)")
    case Nil
    then have "numberLoop start p = Inr p"
      by (subst numberLoop.simps) (simp add: Len_String)
    then show ?thesis using Nil by (intro exI[of _ "input p"]) simp
  next
    case (Cons c cs)
    then have pos: "Len (input p) > 0" by (simp add: Len_String)
    have hdc: "hd (fst (Next 1 (input p))) = c" using Cons by (simp add: fst_Next)
    have num: "isNumberByte c" using "1.prems" Cons by auto
    let ?p1 = "p\<lparr>input := snd (Next 1 (input p))\<rparr>"
    have "\<forall>c\<in>set (String (input ?p1)). isNumberByte c"
      using "1.prems" Cons by (simp add: String_Next)
    then obtain b where b: "numberLoop start ?p1 = Inr (?p1\<lparr>input := b\<rparr>)" "String b = []"
      using "1.IH"[OF pos refl refl] hdc num by auto
    have "numberLoop start p = numberLoop start ?p1"
      using pos hdc num by (subst numberLoop.simps) (simp add: Let_def)
    then show ?thesis using b by (intro exI[of _ b]) simp
  qed
qed

lemma upd_comm: "p\<lparr>currentToken := t, input := b\<rparr> = p\<lparr>input := b, currentToken := t\<rparr>"
  by simp

lemma numberLoop_stop:
  "String b0 = ds @ c # rest \<Longrightarrow> \<forall>d\<in>set ds. isNumberByte d \<Longrightarrow> \<not> isNumberByte c \<Longrightarrow>
   \<exists>b. String b = c # rest \<and>
       (\<forall>t. numberLoop start \<lparr>input = b0, currentToken = t\<rparr> =
         (case slice (c # rest) start (int (length (c # rest))) of
            Inl e \<Rightarrow> Inl e
          | Inr tok \<Rightarrow> Inr \<lparr>input = b, currentToken = tok\<rparr>))"
proof (induction ds arbitrary: b0)
  case Nil
  then have str: "String b0 = c # rest" by simp
  then have pos: "Len b0 > 0" by (simp add: Len_String)
  have hdc: "hd (fst (Next 1 b0)) = c" using str by (simp add: fst_Next)
  let ?b = "UnreadByte (snd (Next 1 b0))"
  have sb: "String ?b = c # rest" using str by (simp add: String_Unread_Next)
  have "numberLoop start \<lparr>input = b0, currentToken = t\<rparr> =
         (case slice (c # rest) start (int (length (c # rest))) of
            Inl e \<Rightarrow> Inl e
          | Inr tok \<Rightarrow> Inr \<lparr>input = ?b, currentToken = tok\<rparr>)" for t
    using pos hdc Nil.prems(3) sb
    by (subst numberLoop.simps) (simp add: Let_def Len_String split: sum.splits)
  then show ?case using sb by blast
next
  case (Cons d ds)
  then have str: "String b0 = d # ds @ c # rest" by simp
  then have pos: "Len b0 > 0" by (simp add: Len_String)
  have hdc: "hd (fst (Next 1 b0)) = d" using str by (simp add: fst_Next)
  have num: "isNumberByte d" using Cons.prems(2) by simp
  let ?b1 = "snd (Next 1 b0)"
  have "String ?b1 = ds @ c # rest" using str by (simp add: String_Next)
  from Cons.IH[OF this] Cons.prems(2,3)
  obtain b where b: "String b = c # rest"
    "\<And>t. numberLoop start \<lparr>input = ?b1, currentToken = t\<rparr> =
       (case slice (c # rest) start (int (length (c # rest))) of
          Inl e \<Rightarrow> Inl e
        | Inr tok \<Rightarrow> Inr \<lparr>input = b, currentToken = tok\<rparr>)"
    by auto
  have "numberLoop start \<lparr>input = b0, currentToken = t\<rparr> =
        numberLoop start \<lparr>input = ?b1, currentToken = t\<rparr>" for t
    using pos hdc num by (subst numberLoop.simps) (simp add: Let_def)
  then show ?case using b by (intro exI[of _ b]) simp
qed

lemma skipWhitespaces_frame:
  "skipWhitespaces (p\<lparr>currentToken := t\<rparr>) = (skipWhitespaces p)\<lparr>currentToken := t\<rparr>"
proof (induction p rule: skipWhitespaces.induct)
  case (1 p)
  show ?case
  proof (cases "Len (input p) > 0")
    case True
    show ?thesis
    proof (cases "isWhitespace (hd (fst (Next 1 (input p))))")
      case ws: True
      have "skipWhitespaces (p\<lparr>currentToken := t\<rparr>) =
            skipWhitespaces (p\<lparr>input := snd (Next 1 (input p))\<rparr>\<lparr>currentToken := t\<rparr>)"
        using True ws by (subst skipWhitespaces.simps) (simp add: Let_def upd_comm)
      also have "\<dots> = (skipWhitespaces (p\<lparr>input := snd (Next 1 (input p))\<rparr>))\<lparr>currentToken := t\<rparr>"
        using "1.IH"[OF True refl refl] ws by simp
      also have "skipWhitespaces (p\<lparr>input := snd (Next 1 (input p))\<rparr>) = skipWhitespaces p"
        using True ws by (subst (2) skipWhitespaces.simps) (simp add: Let_def)
      finally show ?thesis .
    next
      case False
      then show ?thesis using True
        by (subst skipWhitespaces.simps, subst (2) skipWhitespaces.simps) (simp add: Let_def)
    qed
  next
    case False
    then show ?thesis
      by (subst skipWhitespaces.simps, subst (2) skipWhitespaces.simps) simp
  qed
qed

lemma readNextToken_empty:
  "dropWhile isWhitespace (String (input p)) = [] \<Longrightarrow>
   readNextToken p = Inr (False, skipWhitespaces p)"
  by (simp add: readNextToken_def Let_def Len_String skipWhitespaces_String)

lemma readNextToken_Cons:
  assumes "dropWhile isWhitespace (String (input p)) = c # cs"
  shows "\<exists>b. String b = cs \<and>
     (\<forall>t. readNextToken (p\<lparr>currentToken := t\<rparr>) =
       (let p1 = \<lparr>input = b, currentToken = t\<rparr>
        in if c \<in> set ''{}[]:,'' then Inr (True, p1\<lparr>currentToken := [c]\<rparr>)
           else if c = CHR ''n'' then literalCase 4 ''null'' p1
           else if c = CHR ''t'' then literalCase 4 ''true'' p1
           else if c = CHR ''f'' then literalCase 5 ''false'' p1
           else if c = CHR 0x22 then
             (case stringLoop (int (length cs)) p1 of
                Inl e \<Rightarrow> Inl e
              | Inr p2 \<Rightarrow> Inr (True, p2))
           else
             (case numberLoop (int (length cs)) p1 of
                Inl e \<Rightarrow> Inl e
              | Inr p2 \<Rightarrow> Inr (True, p2))))"
proof -
  let ?q = "skipWhitespaces p"
  let ?b = "snd (Next 1 (input ?q))"
  have sq: "String (input ?q) = c # cs"
    using assms by (simp add: skipWhitespaces_String)
  have sb: "String ?b = cs" using sq by (simp add: String_Next)
  have hdc: "hd (fst (Next 1 (input ?q))) = c" "fst (Next 1 (input ?q)) = [c]"
    using sq by (simp_all add: fst_Next)
  have len: "Len (input ?q) \<noteq> 0" "Len ?b = length cs"
    using sq sb by (simp_all add: Len_String)
  have q: "skipWhitespaces (p\<lparr>currentToken := t\<rparr>) = \<lparr>input = input ?q, currentToken = t\<rparr>" for t
    by (simp add: skipWhitespaces_frame)
  show ?thesis
    apply (intro exI[of _ ?b] conjI sb allI)
    apply (simp only: readNextToken_def Let_def q)
    using hdc len apply simp
    done
qed

lemma literalCase_frame:
  "literalCase n lit \<lparr>input = b, currentToken = t\<rparr> =
     (if n \<le> length (String b) then
        (if take n (String b) = lit
         then Inr (True, \<lparr>input = snd (Next n b), currentToken = lit\<rparr>)
         else Inr (False, \<lparr>input = snd (Next n b), currentToken = t\<rparr>))
      else Inr (False, \<lparr>input = b, currentToken = t\<rparr>))"
  by (simp add: literalCase_def Let_def Len_String fst_Next)

lemma literalCase_changed:
  "literalCase n lit \<lparr>input = b, currentToken = t0\<rparr> = Inr (ok, p') \<Longrightarrow> currentToken p' \<noteq> t0 \<Longrightarrow>
   literalCase n lit \<lparr>input = b, currentToken = t\<rparr> = Inr (ok, p')"
  by (auto simp: literalCase_frame split: if_splits)

lemma readNextToken_frame:
  assumes r: "readNextToken p = Inr (ok, p')" and ch: "currentToken p' \<noteq> currentToken p"
  shows "readNextToken (p\<lparr>currentToken := t\<rparr>) = Inr (ok, p')"
proof (cases "dropWhile isWhitespace (String (input p))")
  case Nil
  then have "readNextToken p = Inr (False, skipWhitespaces p)" by (rule readNextToken_empty)
  then have "currentToken p' = currentToken p" using r skipWhitespaces_token[of p] by auto
  then show ?thesis using ch by simp
next
  case (Cons c cs)
  from readNextToken_Cons[OF Cons] obtain b where sb: "String b = cs"
    and rd: "\<And>t. readNextToken (p\<lparr>currentToken := t\<rparr>) =
       (let p1 = \<lparr>input = b, currentToken = t\<rparr>
        in if c \<in> set ''{}[]:,'' then Inr (True, p1\<lparr>currentToken := [c]\<rparr>)
           else if c = CHR ''n'' then literalCase 4 ''null'' p1
           else if c = CHR ''t'' then literalCase 4 ''true'' p1
           else if c = CHR ''f'' then literalCase 5 ''false'' p1
           else if c = CHR 0x22 then
             (case stringLoop (int (length cs)) p1 of
                Inl e \<Rightarrow> Inl e
              | Inr p2 \<Rightarrow> Inr (True, p2))
           else
             (case numberLoop (int (length cs)) p1 of
                Inl e \<Rightarrow> Inl e
              | Inr p2 \<Rightarrow> Inr (True, p2)))"
    by blast
  let ?t0 = "currentToken p"
  have r0: "readNextToken (p\<lparr>currentToken := ?t0\<rparr>) = Inr (ok, p')" using r by simp
  consider (struct) "c \<in> set ''{}[]:,''"
    | (litn) "c = CHR ''n''" | (litt) "c = CHR ''t''" | (litf) "c = CHR ''f''"
    | (str) "c \<notin> set ''{}[]:,''" "c \<notin> set ''ntf''" "c = CHR 0x22"
    | (num) "c \<notin> set ''{}[]:,''" "c \<notin> set ''ntf''" "c \<noteq> CHR 0x22"
    by auto
  then show ?thesis
  proof cases
    case struct
    then show ?thesis using r0 rd[of t] rd[of ?t0] by (simp add: Let_def)
  next
    case litn
    then have "readNextToken (p\<lparr>currentToken := u\<rparr>) = literalCase 4 ''null'' \<lparr>input = b, currentToken = u\<rparr>" for u
      using rd[of u] by (simp add: Let_def)
    then show ?thesis using r0 ch literalCase_changed by metis
  next
    case litt
    then have "readNextToken (p\<lparr>currentToken := u\<rparr>) = literalCase 4 ''true'' \<lparr>input = b, currentToken = u\<rparr>" for u
      using rd[of u] by (simp add: Let_def)
    then show ?thesis using r0 ch literalCase_changed by metis
  next
    case litf
    then have "readNextToken (p\<lparr>currentToken := u\<rparr>) = literalCase 5 ''false'' \<lparr>input = b, currentToken = u\<rparr>" for u
      using rd[of u] by (simp add: Let_def)
    then show ?thesis using r0 ch literalCase_changed by metis
  next
    case str
    show ?thesis
    proof (cases "CHR 0x22 \<in> set cs")
      case True
      then have "stringLoop (int (length cs)) \<lparr>input = b, currentToken = ?t0\<rparr> = Inl SliceBoundsOutOfRange"
        using sb by (intro stringLoop_quote) (simp_all add: Len_String)
      then show ?thesis using r0 rd[of ?t0] str by (simp add: Let_def)
    next
      case False
      then obtain b' where "stringLoop (int (length cs)) \<lparr>input = b, currentToken = ?t0\<rparr> =
          Inr (\<lparr>input = b, currentToken = ?t0\<rparr>\<lparr>input := b'\<rparr>)"
        using stringLoop_no_quote[of "\<lparr>input = b, currentToken = ?t0\<rparr>" "int (length cs)"] sb by auto
      then show ?thesis using r0 ch rd[of ?t0] str by (auto simp: Let_def)
    qed
  next
    case num
    have rt: "readNextToken (p\<lparr>currentToken := u\<rparr>) =
        (case numberLoop (int (length cs)) \<lparr>input = b, currentToken = u\<rparr> of
           Inl e \<Rightarrow> Inl e
         | Inr p2 \<Rightarrow> Inr (True, p2))" for u
      using rd[of u] num by (simp add: Let_def)
    show ?thesis
    proof (cases "\<forall>d\<in>set cs. isNumberByte d")
      case True
      then obtain b' where "numberLoop (int (length cs)) \<lparr>input = b, currentToken = ?t0\<rparr> =
          Inr (\<lparr>input = b, currentToken = ?t0\<rparr>\<lparr>input := b'\<rparr>)"
        using numberLoop_all[of "\<lparr>input = b, currentToken = ?t0\<rparr>" "int (length cs)"] sb by auto
      then have "readNextToken (p\<lparr>currentToken := ?t0\<rparr>) = Inr (True, \<lparr>input = b', currentToken = ?t0\<rparr>)"
        using rt[of ?t0] by simp
      then show ?thesis using r0 ch by auto
    next
      case False
      then have "\<exists>x\<in>set cs. \<not> isNumberByte x" by blast
      from split_list_first_prop[OF this]
      obtain ds c' rest where split: "cs = ds @ c' # rest" "\<not> isNumberByte c'" "\<forall>d\<in>set ds. \<not> \<not> isNumberByte d"
        by blast
      from split(3) have nds: "\<forall>d\<in>set ds. isNumberByte d" by simp
      have "String b = ds @ c' # rest"
        using sb split(1) by simp
      from numberLoop_stop[OF this nds split(2), of "int (length cs)"]
      obtain b' where b': "\<And>t. numberLoop (int (length cs)) \<lparr>input = b, currentToken = t\<rparr> =
         (case slice (c' # rest) (int (length cs)) (int (length (c' # rest))) of
            Inl e \<Rightarrow> Inl e
          | Inr tok \<Rightarrow> Inr \<lparr>input = b', currentToken = tok\<rparr>)"
        by auto
      have eq: "readNextToken (p\<lparr>currentToken := u\<rparr>) =
         (case slice (c' # rest) (int (length cs)) (int (length (c' # rest))) of
            Inl e \<Rightarrow> Inl e
          | Inr tok \<Rightarrow> Inr (True, \<lparr>input = b', currentToken = tok\<rparr>))" for u
        by (simp add: rt b' split: sum.splits)
      have "readNextToken (p\<lparr>currentToken := t\<rparr>) = readNextToken (p\<lparr>currentToken := ?t0\<rparr>)"
        by (simp only: eq[of t] eq[of ?t0])
      then show ?thesis using r0 by (simp only:)
    qed
  qed
qed

text \<open>
  A read stores a token when, run with some text \<open>u\<close> as the current token, it returns
  with another text; its outcome is then the same for every current token. A read that
  stores nothing returns with the current token as it was.
\<close>

lemma readNextToken_stored:
  assumes "readNextToken (p\<lparr>currentToken := u\<rparr>) = Inr (ok, p')" and "currentToken p' \<noteq> u"
  shows "readNextToken (p\<lparr>currentToken := t\<rparr>) = Inr (ok, p')"
  using readNextToken_frame[of "p\<lparr>currentToken := u\<rparr>" ok p' t] assms by simp

lemma readNextToken_stored_iff:
  "(\<exists>u ok p'. readNextToken (p\<lparr>currentToken := u\<rparr>) = Inr (ok, p') \<and> currentToken p' \<noteq> u)
   \<longleftrightarrow> (\<exists>ok p'. \<forall>t. readNextToken (p\<lparr>currentToken := t\<rparr>) = Inr (ok, p'))"
proof
  assume "\<exists>u ok p'. readNextToken (p\<lparr>currentToken := u\<rparr>) = Inr (ok, p') \<and> currentToken p' \<noteq> u"
  then obtain u ok p' where "readNextToken (p\<lparr>currentToken := u\<rparr>) = Inr (ok, p')" "currentToken p' \<noteq> u"
    by blast
  then have "\<forall>t. readNextToken (p\<lparr>currentToken := t\<rparr>) = Inr (ok, p')"
    using readNextToken_stored by blast
  then show "\<exists>ok p'. \<forall>t. readNextToken (p\<lparr>currentToken := t\<rparr>) = Inr (ok, p')" by blast
next
  assume "\<exists>ok p'. \<forall>t. readNextToken (p\<lparr>currentToken := t\<rparr>) = Inr (ok, p')"
  then obtain ok p' where a: "\<And>t. readNextToken (p\<lparr>currentToken := t\<rparr>) = Inr (ok, p')"
    by blast
  have "currentToken p' \<noteq> CHR ''x'' # currentToken p'" by simp
  with a[of "CHR ''x'' # currentToken p'"]
  show "\<exists>u ok p'. readNextToken (p\<lparr>currentToken := u\<rparr>) = Inr (ok, p') \<and> currentToken p' \<noteq> u"
    by blast
qed

lemma readNextToken_false_stale:
  assumes "readNextToken p = Inr (False, p')"
  shows "currentToken p' = currentToken p"
    and "dropWhile isWhitespace (String (input p)) = [] \<or>
         hd (dropWhile isWhitespace (String (input p))) \<in> set ''ntf''"
proof -
  have "currentToken p' = currentToken p \<and>
        (dropWhile isWhitespace (String (input p)) = [] \<or>
         hd (dropWhile isWhitespace (String (input p))) \<in> set ''ntf'')"
  proof (cases "dropWhile isWhitespace (String (input p))")
    case Nil
    then have "readNextToken p = Inr (False, skipWhitespaces p)" by (rule readNextToken_empty)
    then show ?thesis using assms Nil skipWhitespaces_token[of p] by auto
  next
    case (Cons c cs)
    from readNextToken_Cons[OF Cons] obtain b where
      rd: "readNextToken (p\<lparr>currentToken := currentToken p\<rparr>) =
       (let p1 = \<lparr>input = b, currentToken = currentToken p\<rparr>
        in if c \<in> set ''{}[]:,'' then Inr (True, p1\<lparr>currentToken := [c]\<rparr>)
           else if c = CHR ''n'' then literalCase 4 ''null'' p1
           else if c = CHR ''t'' then literalCase 4 ''true'' p1
           else if c = CHR ''f'' then literalCase 5 ''false'' p1
           else if c = CHR 0x22 then
             (case stringLoop (int (length cs)) p1 of
                Inl e \<Rightarrow> Inl e
              | Inr p2 \<Rightarrow> Inr (True, p2))
           else
             (case numberLoop (int (length cs)) p1 of
                Inl e \<Rightarrow> Inl e
              | Inr p2 \<Rightarrow> Inr (True, p2)))"
      by blast
    have lit: "literalCase n l \<lparr>input = b, currentToken = currentToken p\<rparr> = Inr (False, p') \<Longrightarrow>
               currentToken p' = currentToken p" for n l
      by (auto simp: literalCase_frame split: if_splits)
    show ?thesis using rd assms Cons lit
      by (simp add: Let_def split: if_splits sum.splits)
  qed
  then show "currentToken p' = currentToken p"
    and "dropWhile isWhitespace (String (input p)) = [] \<or>
         hd (dropWhile isWhitespace (String (input p))) \<in> set ''ntf''"
    by simp_all
qed

lemma literal_never_matches:
  assumes "lit = ''null'' \<or> lit = ''true'' \<or> lit = ''false''"
    and "dropWhile isWhitespace (String (input p)) = lit @ rest"
  shows "\<exists>p'. readNextToken p = Inr (False, p') \<and> currentToken p' = currentToken p"
proof -
  have s: "dropWhile isWhitespace (String (input p)) = hd lit # tl lit @ rest"
    using assms by auto
  from readNextToken_Cons[OF s] obtain b where sb: "String b = tl lit @ rest" and
    rd: "readNextToken (p\<lparr>currentToken := currentToken p\<rparr>) =
       (let p1 = \<lparr>input = b, currentToken = currentToken p\<rparr>
        in if hd lit \<in> set ''{}[]:,'' then Inr (True, p1\<lparr>currentToken := [hd lit]\<rparr>)
           else if hd lit = CHR ''n'' then literalCase 4 ''null'' p1
           else if hd lit = CHR ''t'' then literalCase 4 ''true'' p1
           else if hd lit = CHR ''f'' then literalCase 5 ''false'' p1
           else if hd lit = CHR 0x22 then
             (case stringLoop (int (length (tl lit @ rest))) p1 of
                Inl e \<Rightarrow> Inl e
              | Inr p2 \<Rightarrow> Inr (True, p2))
           else
             (case numberLoop (int (length (tl lit @ rest))) p1 of
                Inl e \<Rightarrow> Inl e
              | Inr p2 \<Rightarrow> Inr (True, p2)))"
    by blast
  from assms(1) consider "lit = ''null''" | "lit = ''true''" | "lit = ''false''"
    by auto
  then show ?thesis
  proof cases
    case 1
    then show ?thesis using rd sb by (simp add: Let_def literalCase_frame)
  next
    case 2
    then show ?thesis using rd sb by (simp add: Let_def literalCase_frame)
  next
    case 3
    then show ?thesis using rd sb by (simp add: Let_def literalCase_frame)
  qed
qed

lemma string_always_panics:
  assumes "dropWhile isWhitespace (String (input p)) = CHR 0x22 # body @ CHR 0x22 # rest"
  shows "readNextToken p = Inl SliceBoundsOutOfRange"
proof -
  from readNextToken_Cons[OF assms] obtain b where sb: "String b = body @ CHR 0x22 # rest" and
    rd: "readNextToken (p\<lparr>currentToken := currentToken p\<rparr>) =
       (let p1 = \<lparr>input = b, currentToken = currentToken p\<rparr>
        in if CHR 0x22 \<in> set ''{}[]:,'' then Inr (True, p1\<lparr>currentToken := [CHR 0x22]\<rparr>)
           else if CHR 0x22 = CHR ''n'' then literalCase 4 ''null'' p1
           else if CHR 0x22 = CHR ''t'' then literalCase 4 ''true'' p1
           else if CHR 0x22 = CHR ''f'' then literalCase 5 ''false'' p1
           else if CHR 0x22 = CHR 0x22 then
             (case stringLoop (int (length (body @ CHR 0x22 # rest))) p1 of
                Inl e \<Rightarrow> Inl e
              | Inr p2 \<Rightarrow> Inr (True, p2))
           else
             (case numberLoop (int (length (body @ CHR 0x22 # rest))) p1 of
                Inl e \<Rightarrow> Inl e
              | Inr p2 \<Rightarrow> Inr (True, p2)))"
    by blast
  have "stringLoop (int (length (body @ CHR 0x22 # rest))) \<lparr>input = b, currentToken = currentToken p\<rparr>
        = Inl SliceBoundsOutOfRange"
    using sb by (intro stringLoop_quote) (simp_all add: Len_String)
  then show ?thesis using rd by (simp add: Let_def)
qed

lemma readNextToken_number:
  assumes s: "dropWhile isWhitespace (String (input p)) = c0 # ds @ c # rest"
    and c0: "c0 \<notin> set ''{}[]:,''" "c0 \<notin> set ''ntf''" "c0 \<noteq> CHR 0x22"
    and ds: "\<forall>d\<in>set ds. isNumberByte d" and c: "\<not> isNumberByte c"
  shows "\<exists>b. String b = c # rest \<and>
     readNextToken p =
       (if ds = [] then Inr (True, \<lparr>input = b, currentToken = []\<rparr>)
        else Inl SliceBoundsOutOfRange)"
proof -
  from readNextToken_Cons[OF s] obtain b where sb: "String b = ds @ c # rest" and
    rd: "readNextToken (p\<lparr>currentToken := currentToken p\<rparr>) =
       (let p1 = \<lparr>input = b, currentToken = currentToken p\<rparr>
        in if c0 \<in> set ''{}[]:,'' then Inr (True, p1\<lparr>currentToken := [c0]\<rparr>)
           else if c0 = CHR ''n'' then literalCase 4 ''null'' p1
           else if c0 = CHR ''t'' then literalCase 4 ''true'' p1
           else if c0 = CHR ''f'' then literalCase 5 ''false'' p1
           else if c0 = CHR 0x22 then
             (case stringLoop (int (length (ds @ c # rest))) p1 of
                Inl e \<Rightarrow> Inl e
              | Inr p2 \<Rightarrow> Inr (True, p2))
           else
             (case numberLoop (int (length (ds @ c # rest))) p1 of
                Inl e \<Rightarrow> Inl e
              | Inr p2 \<Rightarrow> Inr (True, p2)))"
    by blast
  have rt: "readNextToken p =
        (case numberLoop (int (length (ds @ c # rest))) \<lparr>input = b, currentToken = currentToken p\<rparr> of
           Inl e \<Rightarrow> Inl e
         | Inr p2 \<Rightarrow> Inr (True, p2))"
    using rd c0 by (simp add: Let_def)
  from numberLoop_stop[OF sb ds c, of "int (length (ds @ c # rest))"]
  obtain b' where b': "String b' = c # rest"
    "numberLoop (int (length (ds @ c # rest))) \<lparr>input = b, currentToken = currentToken p\<rparr> =
         (case slice (c # rest) (int (length (ds @ c # rest))) (int (length (c # rest))) of
            Inl e \<Rightarrow> Inl e
          | Inr tok \<Rightarrow> Inr \<lparr>input = b', currentToken = tok\<rparr>)"
    by blast
  have sl: "slice (c # rest) (int (length (ds @ c # rest))) (int (length (c # rest))) =
        (if ds = [] then Inr [] else Inl SliceBoundsOutOfRange)"
    by (simp add: slice_def)
  have "readNextToken p =
       (if ds = [] then Inr (True, \<lparr>input = b', currentToken = []\<rparr>)
        else Inl SliceBoundsOutOfRange)"
    unfolding rt b'(2) sl by (cases "ds = []") simp_all
  then show ?thesis using b'(1) by blast
qed

section \<open>Claims about the lexer\<close>

text \<open>
  Claim C3: after the byte \<open>n\<close>, the bytes \<open>ull\<close> give a Null-literal token, and
  likewise \<open>rue\<close> after \<open>t\<close> and \<open>alse\<close> after \<open>f\<close>; any other continuation makes the
  lexer signal failure.

  The code does not do this. Having consumed the first byte, it compares the next four
  (five) bytes with the whole word, so on \<open>null\<close>, \<open>true\<close> and \<open>false\<close> the call returns
  false and stores no token, while \<open>nnull\<close>, whose continuation is not \<open>ull\<close>, is taken
  as the null token.
\<close>

theorem literals_rejected:
  "readNextToken (NewJSONParser ''null'') =
     Inr (False, \<lparr>input = \<lparr>buf = ''null'', off = 1, lastRead = opRead\<rparr>, currentToken = []\<rparr>)
   \<and> readNextToken (NewJSONParser ''true'') =
     Inr (False, \<lparr>input = \<lparr>buf = ''true'', off = 1, lastRead = opRead\<rparr>, currentToken = []\<rparr>)
   \<and> readNextToken (NewJSONParser ''false'') =
     Inr (False, \<lparr>input = \<lparr>buf = ''false'', off = 1, lastRead = opRead\<rparr>, currentToken = []\<rparr>)
   \<and> readNextToken (NewJSONParser ''nnull'') =
     Inr (True, \<lparr>input = \<lparr>buf = ''nnull'', off = 5, lastRead = opRead\<rparr>, currentToken = ''null''\<rparr>)"
  by code_simp

text \<open>
  Claim C4: after an opening quote, with a later quote in the input, the lexer stores the
  bytes strictly between the two quotes as the token, backslashes included.

  The code does not do this. \<open>start\<close> is the number of unread bytes after the opening
  quote, and the slice is taken from the unread portion after the closing quote, which is
  shorter than \<open>start\<close>: the slice expression panics for every terminated string
  (\<open>string_always_panics\<close>). Here it is evaluated on \<open>"a"\<close> and on \<open>"a\b" \<close>.
\<close>

theorem string_token_panics:
  \<open>readNextToken (NewJSONParser ''"a"'') = Inl SliceBoundsOutOfRange
   \<and> readNextToken (NewJSONParser (''"a'' @ [CHR 0x5C] @ ''b" '')) = Inl SliceBoundsOutOfRange\<close>
  by code_simp

text \<open>
  Claim C6, the lexer's part: a numeric span is never rejected, so that \<open>1.2.3\<close> and
  \<open>--5\<close> come out as Number tokens.

  The code does not produce these tokens. When the span runs to the end of the input the
  loop ends without storing anything, and \<open>currentToken\<close> keeps its old text (here the
  initial empty one); when a byte outside \<open>0123456789+-.eE\<close> ends a span of two bytes
  or more, the slice expression panics (\<open>readNextToken_number\<close>).
\<close>

theorem number_span_not_produced:
  "readNextToken (NewJSONParser ''1.2.3'') =
     Inr (True, \<lparr>input = \<lparr>buf = ''1.2.3'', off = 5, lastRead = opRead\<rparr>, currentToken = []\<rparr>)
   \<and> readNextToken (NewJSONParser ''--5'') =
     Inr (True, \<lparr>input = \<lparr>buf = ''--5'', off = 3, lastRead = opRead\<rparr>, currentToken = []\<rparr>)
   \<and> readNextToken (NewJSONParser ''1.2.3,'') = Inl SliceBoundsOutOfRange
   \<and> readNextToken (NewJSONParser ''--5 '') = Inl SliceBoundsOutOfRange"
  by code_simp

text \<open>
  Claim C8: when the scan of a numeric literal ends at a byte outside
  \<open>0123456789+-.eE\<close>, that byte is pushed back and stays unread, so that the next
  lexer operation begins at it.

  The code calls \<open>UnreadByte\<close> at that byte, but the slice expression of the next
  statement panics whenever the scan has read a byte of the set before it, that is for
  every literal of two bytes or more: \<open>readNextToken\<close> does not return, and no lexer
  operation follows. On \<open>30,\<close>, \<open>-5]\<close> and \<open>1.0 \<close> the call panics; only a literal of
  one byte, as in \<open> 7, 8\<close>, returns with the byte after it unread
  (\<open>readNextToken_number\<close> has both cases for every input).
\<close>

theorem number_scan_panics_at_end:
  "readNextToken (NewJSONParser ''30,'') = Inl SliceBoundsOutOfRange
   \<and> readNextToken (NewJSONParser ''-5]'') = Inl SliceBoundsOutOfRange
   \<and> readNextToken (NewJSONParser ''1.0 '') = Inl SliceBoundsOutOfRange
   \<and> readNextToken (NewJSONParser '' 7, 8'') =
     Inr (True, \<lparr>input = \<lparr>buf = '' 7, 8'', off = 2, lastRead = opInvalid\<rparr>, currentToken = []\<rparr>)"
  by code_simp

section \<open>Facts about the parser\<close>

text \<open>
  A larger bound never changes a result: what the parse returns (or the panic that ends
  it) with some bound, it returns with every larger one.
\<close>

lemma fuel_Suc:
  "(parseValue conv n p = Some r \<longrightarrow> parseValue conv (Suc n) p = Some r)
   \<and> (parseObject conv n p = Some r \<longrightarrow> parseObject conv (Suc n) p = Some r)
   \<and> (\<forall>obj. objectLoop conv n obj p = Some r \<longrightarrow> objectLoop conv (Suc n) obj p = Some r)
   \<and> (parseArray conv n p = Some r \<longrightarrow> parseArray conv (Suc n) p = Some r)
   \<and> (\<forall>arr. arrayLoop conv n arr p = Some r \<longrightarrow> arrayLoop conv (Suc n) arr p = Some r)"
proof (induction n arbitrary: p r)
  case 0
  show ?case by simp
next
  case (Suc n)
  have pv: "parseValue conv n q = Some s \<Longrightarrow> parseValue conv (Suc n) q = Some s" for q s
    using Suc by blast
  have po: "parseObject conv n q = Some s \<Longrightarrow> parseObject conv (Suc n) q = Some s" for q s
    using Suc by blast
  have ol: "objectLoop conv n obj q = Some s \<Longrightarrow> objectLoop conv (Suc n) obj q = Some s" for q s obj
    using Suc by blast
  have pa: "parseArray conv n q = Some s \<Longrightarrow> parseArray conv (Suc n) q = Some s" for q s
    using Suc by blast
  have al: "arrayLoop conv n arr q = Some s \<Longrightarrow> arrayLoop conv (Suc n) arr q = Some s" for q s arr
    using Suc by blast
  have 1: "parseValue conv (Suc n) p = Some r \<Longrightarrow> parseValue conv (Suc (Suc n)) p = Some r"
    using po pa
    by (auto simp del: parseObject.simps parseArray.simps simp: Let_def
        split: sum.splits prod.splits option.splits if_splits)
  have 2: "parseObject conv (Suc n) p = Some r \<Longrightarrow> parseObject conv (Suc (Suc n)) p = Some r"
    using ol by (auto simp del: objectLoop.simps split: sum.splits prod.splits)
  have 4: "parseArray conv (Suc n) p = Some r \<Longrightarrow> parseArray conv (Suc (Suc n)) p = Some r"
    using al by (auto simp del: arrayLoop.simps split: sum.splits prod.splits)
  have 3: "objectLoop conv (Suc n) obj p = Some r \<Longrightarrow> objectLoop conv (Suc (Suc n)) obj p = Some r" for obj
  proof -
    assume a: "objectLoop conv (Suc n) obj p = Some r"
    show ?thesis
    proof (cases "currentToken p \<noteq> ''}''")
      case False
      then show ?thesis using a by simp
    next
      case True
      show ?thesis
      proof (cases "readNextToken p")
        case (Inl e)
        then show ?thesis using a True by simp
      next
        case (Inr x)
        obtain ok1 p1 where x: "x = (ok1, p1)" by (cases x)
        show ?thesis
        proof (cases "currentToken p1 \<noteq> '':''")
          case c: True
          then show ?thesis using a True Inr x by simp
        next
          case c: False
          show ?thesis
          proof (cases "readNextToken p1")
            case i2: (Inl e)
            then show ?thesis using a True Inr x c by simp
          next
            case i2: (Inr y)
            obtain ok2 p2 where y: "y = (ok2, p2)" by (cases y)
            from a True Inr x c i2 y obtain v p3 where
              v: "parseValue conv n p2 = Some v" 
              by (auto split: option.splits)
            then have v': "parseValue conv (Suc n) p2 = Some v" by (rule pv)
            show ?thesis
            proof (cases v)
              case (Inl e)
              then show ?thesis using a True Inr x c i2 y v v'
                by (auto simp del: parseValue.simps)
            next
              case v3: (Inr z)
              obtain w p3 where z: "z = (w, p3)" by (cases z)
              show ?thesis
              proof (cases "readNextToken p3")
                case i3: (Inl e)
                then show ?thesis using a True Inr x c i2 y v v' v3 z
                  by (auto simp del: parseValue.simps)
              next
                case i3: (Inr u)
                obtain ok3 p4 where u: "u = (ok3, p4)" by (cases u)
                have "objectLoop conv n (obj(currentToken p \<mapsto> w)) p4 = Some r"
                  using a True Inr x c i2 y v v3 z i3 u
                  by (simp del: parseValue.simps add: Let_def)
                then have "objectLoop conv (Suc n) (obj(currentToken p \<mapsto> w)) p4 = Some r"
                  by (rule ol)
                then show ?thesis using True Inr x c i2 y v' v3 z i3 u
                  by (subst objectLoop.simps(2)) (simp del: parseValue.simps objectLoop.simps add: Let_def)
              qed
            qed
          qed
        qed
      qed
    qed
  qed
  have 5: "arrayLoop conv (Suc n) arr p = Some r \<Longrightarrow> arrayLoop conv (Suc (Suc n)) arr p = Some r" for arr
  proof -
    assume a: "arrayLoop conv (Suc n) arr p = Some r"
    show ?thesis
    proof (cases "currentToken p \<noteq> ''}''")
      case False
      then show ?thesis using a by simp
    next
      case True
      from a True obtain v where v: "parseValue conv n p = Some v"
        by (auto split: option.splits)
      then have v': "parseValue conv (Suc n) p = Some v" by (rule pv)
      show ?thesis
      proof (cases v)
        case (Inl e)
        then show ?thesis using a True v v' by (auto simp del: parseValue.simps)
      next
        case v3: (Inr z)
        obtain w p1 where z: "z = (w, p1)" by (cases z)
        show ?thesis
        proof (cases "readNextToken p1")
          case (Inl e)
          then show ?thesis using a True v v' v3 z by (auto simp del: parseValue.simps)
        next
          case (Inr u)
          obtain ok p2 where u: "u = (ok, p2)" by (cases u)
          have "arrayLoop conv n (arr @ [w]) p2 = Some r"
            using a True v v3 z Inr u by (auto simp del: parseValue.simps)
          then have "arrayLoop conv (Suc n) (arr @ [w]) p2 = Some r" by (rule al)
          then show ?thesis using True v' v3 z Inr u
            by (subst arrayLoop.simps(2)) (simp del: parseValue.simps arrayLoop.simps)
        qed
      qed
    qed
  qed
  show ?case using 1 2 3 4 5 by blast
qed

lemma fuel_mono:
  assumes "n \<le> m"
  shows "parseValue conv n p = Some r \<Longrightarrow> parseValue conv m p = Some r"
    and "parseObject conv n p = Some r \<Longrightarrow> parseObject conv m p = Some r"
    and "objectLoop conv n obj p = Some r \<Longrightarrow> objectLoop conv m obj p = Some r"
    and "parseArray conv n p = Some r \<Longrightarrow> parseArray conv m p = Some r"
    and "arrayLoop conv n arr p = Some r \<Longrightarrow> arrayLoop conv m arr p = Some r"
  using assms
proof (induction m)
  case 0
  { case 1 then show ?case by simp }
  { case 2 then show ?case by simp }
  { case 3 then show ?case by simp }
  { case 4 then show ?case by simp }
  { case 5 then show ?case by simp }
next
  case (Suc m)
  { case 1 then show ?case using Suc.IH(1) fuel_Suc[of conv m p r] by (cases "n = Suc m") auto }
  { case 2 then show ?case using Suc.IH(2) fuel_Suc[of conv m p r] by (cases "n = Suc m") auto }
  { case 3 then show ?case using Suc.IH(3) fuel_Suc[of conv m p r] by (cases "n = Suc m") auto }
  { case 4 then show ?case using Suc.IH(4) fuel_Suc[of conv m p r] by (cases "n = Suc m") auto }
  { case 5 then show ?case using Suc.IH(5) fuel_Suc[of conv m p r] by (cases "n = Suc m") auto }
qed

lemma parseValue_default:
  assumes "readNextToken p = Inr (ok, p1)"
    and "currentToken p1 \<notin> {''null'', ''true'', ''false'', ''{'', ''[''}"
  shows "parseValue conv (Suc n) p =
     Some (Inr (case conv (currentToken p1) of
                  Some num \<Rightarrow> JSONValue ''number'' (Float64 num)
                | None \<Rightarrow> JSONValue ''string'' (Str (currentToken p1)), p1))"
  using assms by (simp add: Let_def split: option.splits)

lemma arrayLoop_stuck:
  assumes "readNextToken p = Inr (False, p)"
    and "currentToken p \<notin> {''null'', ''true'', ''false'', ''{'', ''['', ''}''}"
  shows "arrayLoop conv n arr p = None"
proof (induction n arbitrary: arr)
  case 0
  show ?case by simp
next
  case (Suc n)
  show ?case
  proof (cases n)
    case 0
    then show ?thesis using assms(2) by simp
  next
    case (Suc k)
    have "parseValue conv (Suc k) p =
       Some (Inr (case conv (currentToken p) of
                  Some num \<Rightarrow> JSONValue ''number'' (Float64 num)
                | None \<Rightarrow> JSONValue ''string'' (Str (currentToken p)), p))"
      using assms by (intro parseValue_default) auto
    then show ?thesis using assms Suc Suc.IH
      by (subst arrayLoop.simps(2)) (simp del: parseValue.simps arrayLoop.simps)
  qed
qed

lemma objectLoop_expected_colon:
  assumes "currentToken p \<noteq> ''}''" and "readNextToken p = Inr (ok, p1)"
    and "currentToken p1 \<noteq> '':''"
  shows "objectLoop conv (Suc n) obj p = Some (Inl ExpectedColon)"
  using assms by simp

lemma missing_colon_digits:
  "parseValue conv (Suc (Suc (Suc n))) (NewJSONParser ''{1 2}'') = Some (Inl ExpectedColon)"
proof -
  let ?P = "\<lambda>k lr tok. \<lparr>input = \<lparr>buf = ''{1 2}'', off = k, lastRead = lr\<rparr>, currentToken = tok\<rparr>"
  have s0: "readNextToken (NewJSONParser ''{1 2}'') = Inr (True, ?P 1 opRead ''{'')"
    and s1: "readNextToken (?P 1 opRead ''{'') = Inr (True, ?P 2 opInvalid [])"
    and s2: "readNextToken (?P 2 opInvalid []) = Inr (True, ?P 4 opInvalid [])"
    by code_simp+
  have "objectLoop conv (Suc n) Map.empty (?P 2 opInvalid []) = Some (Inl ExpectedColon)"
    by (rule objectLoop_expected_colon[OF _ s2]) simp_all
  then have "parseObject conv (Suc (Suc n)) (?P 1 opRead ''{'') = Some (Inl ExpectedColon)"
    using s1 by (subst parseObject.simps(2)) (simp del: objectLoop.simps)
  then show ?thesis
    using s0 by (subst parseValue.simps(2)) (simp del: parseObject.simps)
qed

lemma trailing_whitespace_changes_result:
  "parseValue conv (Suc n) (NewJSONParser ''12'') =
     Some (Inr (case conv [] of
                  Some num \<Rightarrow> JSONValue ''number'' (Float64 num)
                | None \<Rightarrow> JSONValue ''string'' (Str []),
                \<lparr>input = \<lparr>buf = ''12'', off = 2, lastRead = opRead\<rparr>, currentToken = []\<rparr>))
   \<and> parseValue conv (Suc n) (NewJSONParser ''12 '') = Some (Inl SliceBoundsOutOfRange)"
proof -
  have a: "readNextToken (NewJSONParser ''12'') =
      Inr (True, \<lparr>input = \<lparr>buf = ''12'', off = 2, lastRead = opRead\<rparr>, currentToken = []\<rparr>)"
    and b: "readNextToken (NewJSONParser ''12 '') = Inl SliceBoundsOutOfRange"
    by code_simp+
  show ?thesis using parseValue_default[OF a, of conv n] b
    by (simp del: parseValue.simps add: parseValue.simps(2)[of _ _ "NewJSONParser ''12 ''"]
        split: option.splits)
qed

section \<open>Claims about the parser\<close>

text \<open>
  Claim C1: the input \<open>[1, 2, 3]\<close> parses to the array of the numbers 1, 2 and 3;
  after each element of an array the next token is \<open>,\<close> (go on) or \<open>]\<close> (leave the
  loop and return the array).

  The code does not do this. The loop of \<open>parseArray\<close> runs while \<open>currentToken\<close> is
  not \<open>}\<close>, although its comment reads \<open>Read the next token (',' or ']')\<close>. On this
  input the token \<open>]\<close> is stored as one more element, the input is then exhausted,
  \<open>readNextToken\<close> returns false and leaves \<open>]\<close> in place, and the loop goes on for
  ever: no bound is large enough for the parse to return.
\<close>

theorem array_never_returns:
  "parseValue conv fuel (NewJSONParser ''[1, 2, 3]'') = None"
proof -
  let ?P = "\<lambda>k lr tok. \<lparr>input = \<lparr>buf = ''[1, 2, 3]'', off = k, lastRead = lr\<rparr>, currentToken = tok\<rparr>"
  have s0: "readNextToken (NewJSONParser ''[1, 2, 3]'') = Inr (True, ?P 1 opRead ''['')"
    and s1: "readNextToken (?P 1 opRead ''['') = Inr (True, ?P 2 opInvalid [])"
    and s2: "readNextToken (?P 2 opInvalid []) = Inr (True, ?P 3 opRead '','')"
    and s3: "readNextToken (?P 3 opRead '','') = Inr (True, ?P 5 opInvalid [])"
    and s4: "readNextToken (?P 5 opInvalid []) = Inr (True, ?P 6 opRead '','')"
    and s5: "readNextToken (?P 6 opRead '','') = Inr (True, ?P 8 opInvalid [])"
    and s6: "readNextToken (?P 8 opInvalid []) = Inr (True, ?P 9 opRead '']'')"
    and s7: "readNextToken (?P 9 opRead '']'') = Inr (False, ?P 9 opRead '']'')"
    by code_simp+
  have stuck: "arrayLoop conv n arr (?P 9 opRead '']'') = None" for n arr
    by (rule arrayLoop_stuck[OF s7]) simp
  have al3: "arrayLoop conv (Suc (Suc n)) arr (?P 8 opInvalid []) = None" for n arr
    using parseValue_default[OF s6, of conv n] s7 stuck
    by (subst arrayLoop.simps(2)) (simp del: parseValue.simps arrayLoop.simps)
  have al2: "arrayLoop conv (Suc (Suc (Suc n))) arr (?P 5 opInvalid []) = None" for n arr
    using parseValue_default[OF s4, of conv "Suc n"] s5 al3
    by (subst arrayLoop.simps(2)) (simp del: parseValue.simps arrayLoop.simps)
  have al1: "arrayLoop conv (Suc (Suc (Suc (Suc n)))) arr (?P 2 opInvalid []) = None" for n arr
    using parseValue_default[OF s2, of conv "Suc (Suc n)"] s3 al2
    by (subst arrayLoop.simps(2)) (simp del: parseValue.simps arrayLoop.simps)
  have pa: "parseArray conv (Suc (Suc (Suc (Suc (Suc n))))) (?P 1 opRead ''['') = None" for n
    using s1 al1 by (subst parseArray.simps(2)) (simp del: arrayLoop.simps)
  have pv: "parseValue conv (Suc (Suc (Suc (Suc (Suc (Suc n)))))) (NewJSONParser ''[1, 2, 3]'') = None" for n
    using s0 pa by (subst parseValue.simps(2)) (simp del: parseArray.simps)
  show ?thesis
  proof (cases "parseValue conv fuel (NewJSONParser ''[1, 2, 3]'')")
    case None
    then show ?thesis .
  next
    case (Some r)
    from fuel_mono(1)[OF _ this, of "Suc (Suc (Suc (Suc (Suc (Suc fuel)))))"] pv[of fuel]
    show ?thesis by simp
  qed
qed

text \<open>
  Claim C2: the input
  \<open>{"name": "John Doe", "age": 30, "active": true, "tags": ["a", "b"]}\<close>
  parses to the object with the four members named.

  The code does not do this. The first token after the brace is the string \<open>"name"\<close>,
  and the string case of the lexer panics at its closing quote (see claim C4); the parse
  ends there, with every bound that lets it come that far.
\<close>

theorem sample_object_panics:
  \<open>parseValue conv (Suc (Suc n))
     (NewJSONParser ''{"name": "John Doe", "age": 30, "active": true, "tags": ["a", "b"]}'') =
   Some (Inl SliceBoundsOutOfRange)\<close>
proof -
  let ?s = \<open>''{"name": "John Doe", "age": 30, "active": true, "tags": ["a", "b"]}''\<close>
  have s0: "readNextToken (NewJSONParser ?s) =
      Inr (True, \<lparr>input = \<lparr>buf = ?s, off = 1, lastRead = opRead\<rparr>, currentToken = ''{''\<rparr>)"
    and s1: "readNextToken \<lparr>input = \<lparr>buf = ?s, off = 1, lastRead = opRead\<rparr>, currentToken = ''{''\<rparr> =
      Inl SliceBoundsOutOfRange"
    by code_simp+
  show ?thesis using s0 s1
    by (subst parseValue.simps(2)) (simp del: parseObject.simps add: parseObject.simps(2))
qed

text \<open>
  Claim C5: in \<open>parseObject\<close>, a token other than \<open>:\<close> after a key ends the parse at
  once with the error of the missing separator, and no partial object comes back; in
  particular on the input \<open>{"a" "b"}\<close>.

  The first part holds (\<open>objectLoop_expected_colon\<close>, and \<open>missing_colon_digits\<close> for
  the input \<open>{1 2}\<close>). On the input \<open>{"a" "b"}\<close> the parse ends earlier and with
  another failure: reading the key \<open>"a"\<close> panics in the lexer (claim C4), so the
  separator is never looked at.
\<close>

theorem missing_colon_sample_panics_in_lexer:
  \<open>parseValue conv (Suc (Suc n)) (NewJSONParser ''{"a" "b"}'') = Some (Inl SliceBoundsOutOfRange)\<close>
proof -
  let ?s = \<open>''{"a" "b"}''\<close>
  have s0: "readNextToken (NewJSONParser ?s) =
      Inr (True, \<lparr>input = \<lparr>buf = ?s, off = 1, lastRead = opRead\<rparr>, currentToken = ''{''\<rparr>)"
    and s1: "readNextToken \<lparr>input = \<lparr>buf = ?s, off = 1, lastRead = opRead\<rparr>, currentToken = ''{''\<rparr> =
      Inl SliceBoundsOutOfRange"
    by code_simp+
  show ?thesis using s0 s1
    by (subst parseValue.simps(2)) (simp del: parseObject.simps add: parseObject.simps(2))
qed

text \<open>
  Claim C7: extra whitespace between tokens never changes the parsed value.

  The code does not have this property. A literal that fails its check has consumed the
  four bytes after its first byte, whatever they are, so a space after \<open>true\<close> decides
  which bytes are left: \<open>[true[}}\<close> gives an array holding the leaf made of the token
  \<open>}\<close>, and \<open>[true [}}\<close> gives an array holding an empty array.
\<close>

theorem whitespace_changes_result:
  "parseValue conv (Suc (Suc (Suc (Suc (Suc (Suc n)))))) (NewJSONParser ''[true[}}'') =
     Some (Inr (JSONValue ''array'' (SliceValue
                  [case conv ''}'' of
                     Some num \<Rightarrow> JSONValue ''number'' (Float64 num)
                   | None \<Rightarrow> JSONValue ''string'' (Str ''}'')]),
                \<lparr>input = \<lparr>buf = ''[true[}}'', off = 8, lastRead = opRead\<rparr>, currentToken = ''}''\<rparr>))
   \<and> parseValue conv (Suc (Suc (Suc (Suc (Suc (Suc n)))))) (NewJSONParser ''[true [}}'') =
     Some (Inr (JSONValue ''array'' (SliceValue [JSONValue ''array'' (SliceValue [])]),
                \<lparr>input = \<lparr>buf = ''[true [}}'', off = 9, lastRead = opRead\<rparr>, currentToken = ''}''\<rparr>))
   \<and> (case conv ''}'' of
         Some num \<Rightarrow> JSONValue ''number'' (Float64 num)
       | None \<Rightarrow> JSONValue ''string'' (Str ''}'')) \<noteq> JSONValue ''array'' (SliceValue [])"
proof -
  let ?A = "\<lambda>k lr tok. \<lparr>input = \<lparr>buf = ''[true[}}'', off = k, lastRead = lr\<rparr>, currentToken = tok\<rparr>"
  let ?B = "\<lambda>k lr tok. \<lparr>input = \<lparr>buf = ''[true [}}'', off = k, lastRead = lr\<rparr>, currentToken = tok\<rparr>"
  let ?leaf = "case conv ''}'' of
         Some num \<Rightarrow> JSONValue ''number'' (Float64 num)
       | None \<Rightarrow> JSONValue ''string'' (Str ''}'')"
  have a0: "readNextToken (NewJSONParser ''[true[}}'') = Inr (True, ?A 1 opRead ''['')"
    and a1: "readNextToken (?A 1 opRead ''['') = Inr (False, ?A 6 opRead ''['')"
    and a2: "readNextToken (?A 6 opRead ''['') = Inr (True, ?A 7 opRead ''}'')"
    and a3: "readNextToken (?A 7 opRead ''}'') = Inr (True, ?A 8 opRead ''}'')"
    by code_simp+
  have b0: "readNextToken (NewJSONParser ''[true [}}'') = Inr (True, ?B 1 opRead ''['')"
    and b1: "readNextToken (?B 1 opRead ''['') = Inr (False, ?B 6 opRead ''['')"
    and b2: "readNextToken (?B 6 opRead ''['') = Inr (True, ?B 7 opRead ''['')"
    and b3: "readNextToken (?B 7 opRead ''['') = Inr (True, ?B 8 opRead ''}'')"
    and b4: "readNextToken (?B 8 opRead ''}'') = Inr (True, ?B 9 opRead ''}'')"
    by code_simp+
  have A1: "arrayLoop conv (Suc k) arr (?A 8 opRead ''}'') =
      Some (Inr (JSONValue ''array'' (SliceValue arr), ?A 8 opRead ''}''))" for k arr
    by simp
  have A2: "parseValue conv (Suc k) (?A 6 opRead ''['') = Some (Inr (?leaf, ?A 7 opRead ''}''))" for k
    using parseValue_default[OF a2, of conv k]
    by (simp del: parseValue.simps split: option.splits)
  have A3: "arrayLoop conv (Suc (Suc k)) [] (?A 6 opRead ''['') =
      Some (Inr (JSONValue ''array'' (SliceValue [?leaf]), ?A 8 opRead ''}''))" for k
    using A2[of k] a3 A1[of k "[?leaf]"]
    by (subst arrayLoop.simps(2)) (simp del: parseValue.simps arrayLoop.simps)
  have A4: "parseArray conv (Suc (Suc (Suc k))) (?A 1 opRead ''['') =
      Some (Inr (JSONValue ''array'' (SliceValue [?leaf]), ?A 8 opRead ''}''))" for k
    using a1 A3[of k] by (subst parseArray.simps(2)) (simp del: arrayLoop.simps)
  have A5: "parseValue conv (Suc (Suc (Suc (Suc k)))) (NewJSONParser ''[true[}}'') =
      Some (Inr (JSONValue ''array'' (SliceValue [?leaf]), ?A 8 opRead ''}''))" for k
    using a0 A4[of k] by (subst parseValue.simps(2)) (simp del: parseArray.simps)
  have B1: "arrayLoop conv (Suc k) arr (?B 8 opRead ''}'') =
      Some (Inr (JSONValue ''array'' (SliceValue arr), ?B 8 opRead ''}''))" for k arr
    by simp
  have B1': "arrayLoop conv (Suc k) arr (?B 9 opRead ''}'') =
      Some (Inr (JSONValue ''array'' (SliceValue arr), ?B 9 opRead ''}''))" for k arr
    by simp
  have B2: "parseArray conv (Suc (Suc k)) (?B 7 opRead ''['') =
      Some (Inr (JSONValue ''array'' (SliceValue []), ?B 8 opRead ''}''))" for k
    using b3 B1[of k "[]"] by (subst parseArray.simps(2)) (simp del: arrayLoop.simps)
  have B3: "parseValue conv (Suc (Suc (Suc k))) (?B 6 opRead ''['') =
      Some (Inr (JSONValue ''array'' (SliceValue []), ?B 8 opRead ''}''))" for k
    using b2 B2[of k] by (subst parseValue.simps(2)) (simp del: parseArray.simps)
  have B4: "arrayLoop conv (Suc (Suc (Suc (Suc k)))) [] (?B 6 opRead ''['') =
      Some (Inr (JSONValue ''array'' (SliceValue [JSONValue ''array'' (SliceValue [])]), ?B 9 opRead ''}''))" for k
    using B3[of k] b4 B1'[of "Suc (Suc k)" "[JSONValue ''array'' (SliceValue [])]"]
    by (subst arrayLoop.simps(2)) (simp del: parseValue.simps arrayLoop.simps)
  have B5: "parseArray conv (Suc (Suc (Suc (Suc (Suc k))))) (?B 1 opRead ''['') =
      Some (Inr (JSONValue ''array'' (SliceValue [JSONValue ''array'' (SliceValue [])]), ?B 9 opRead ''}''))" for k
    using b1 B4[of k] by (subst parseArray.simps(2)) (simp del: arrayLoop.simps)
  have B6: "parseValue conv (Suc (Suc (Suc (Suc (Suc (Suc k)))))) (NewJSONParser ''[true [}}'') =
      Some (Inr (JSONValue ''array'' (SliceValue [JSONValue ''array'' (SliceValue [])]), ?B 9 opRead ''}''))" for k
    using b0 B5[of k] by (subst parseValue.simps(2)) (simp del: parseArray.simps)
  have ne: "?leaf \<noteq> JSONValue ''array'' (SliceValue [])"
    by (simp split: option.splits)
  show ?thesis using A5[of "Suc (Suc n)"] B6[of n] ne by blast
qed

text \<open>
  Claim C9: in \<open>parseObject\<close>, \<open>readNextToken\<close> is called once after the separator
  \<open>:\<close> and \<open>parseValue\<close> then begins with a call of its own, so that the token read
  immediately after \<open>:\<close> is discarded and the value of the member is parsed starting
  from the token after it.

  This holds for every member for which the call at the start of \<open>parseValue\<close> stores
  a token: the round of the loop is then the same whatever text \<open>t\<close> stands in place of
  the token read after \<open>:\<close>. Here \<open>p\<close> is the parser at the head of the loop, with the
  key as its token, \<open>p1\<close> the parser after the separator was read and \<open>p2\<close> after the
  token following it. That the read on \<open>p2\<close> stores a token is said as in
  \<open>readNextToken_stored_iff\<close>: with some text \<open>u\<close> as the current token it returns with
  another one. The token stored may well be the text that was there before, as in
  \<open>{1:nnull nnull}\<close>.
\<close>

theorem token_after_colon_discarded:
  assumes "currentToken p \<noteq> ''}''"
    and "readNextToken p = Inr (ok1, p1)" and "currentToken p1 = '':''"
    and "readNextToken p1 = Inr (ok2, p2)"
    and "readNextToken (p2\<lparr>currentToken := u\<rparr>) = Inr (ok3, p3)" and "currentToken p3 \<noteq> u"
  shows "objectLoop conv (Suc n) obj p =
     (case parseValue conv n (p2\<lparr>currentToken := t\<rparr>) of
        None \<Rightarrow> None
      | Some (Inl e) \<Rightarrow> Some (Inl e)
      | Some (Inr (v, p4)) \<Rightarrow>
          (case readNextToken p4 of
             Inl e \<Rightarrow> Some (Inl e)
           | Inr (ok4, p5) \<Rightarrow> objectLoop conv n (obj(currentToken p \<mapsto> v)) p5))"
proof -
  have r: "readNextToken (p2\<lparr>currentToken := s\<rparr>) = Inr (ok3, p3)" for s
    using readNextToken_stored[OF assms(5,6)] .
  have "readNextToken p2 = Inr (ok3, p3)" using r[of "currentToken p2"] by simp
  then have "parseValue conv n (p2\<lparr>currentToken := t\<rparr>) = parseValue conv n p2"
    using r[of t] by (cases n) simp_all
  then show ?thesis
    using assms(1-4) by (subst objectLoop.simps(2)) (simp add: Let_def)
qed

theorem token_after_colon_discarded_witness:
  "readNextToken \<lparr>input = \<lparr>buf = ''{1:nnull nnull}'', off = 3, lastRead = opRead\<rparr>,
                    currentToken = '':''\<rparr> =
     Inr (True, \<lparr>input = \<lparr>buf = ''{1:nnull nnull}'', off = 8, lastRead = opRead\<rparr>,
                  currentToken = ''null''\<rparr>)
   \<and> readNextToken \<lparr>input = \<lparr>buf = ''{1:nnull nnull}'', off = 8, lastRead = opRead\<rparr>,
                    currentToken = ''null''\<rparr> =
     Inr (True, \<lparr>input = \<lparr>buf = ''{1:nnull nnull}'', off = 14, lastRead = opRead\<rparr>,
                  currentToken = ''null''\<rparr>)
   \<and> objectLoop (Map.empty :: string \<Rightarrow> 'n option) (Suc (Suc 0)) Map.empty
     \<lparr>input = \<lparr>buf = ''{1:nnull nnull}'', off = 2, lastRead = opInvalid\<rparr>, currentToken = []\<rparr> =
     (case parseValue (Map.empty :: string \<Rightarrow> 'n option) (Suc 0)
             \<lparr>input = \<lparr>buf = ''{1:nnull nnull}'', off = 8, lastRead = opRead\<rparr>,
               currentToken = ''[''\<rparr> of
        None \<Rightarrow> None
      | Some (Inl e) \<Rightarrow> Some (Inl e)
      | Some (Inr (v, p4)) \<Rightarrow>
          (case readNextToken p4 of
             Inl e \<Rightarrow> Some (Inl e)
           | Inr (ok4, p5) \<Rightarrow> objectLoop Map.empty (Suc 0) [[] \<mapsto> v] p5))
   \<and> objectLoop (Map.empty :: string \<Rightarrow> 'n option) (Suc (Suc 0)) Map.empty
     \<lparr>input = \<lparr>buf = ''{1:nnull nnull}'', off = 2, lastRead = opInvalid\<rparr>, currentToken = []\<rparr> =
     Some (Inr (JSONValue ''object'' (MapValue [[] \<mapsto> JSONValue ''null'' NilValue]),
                \<lparr>input = \<lparr>buf = ''{1:nnull nnull}'', off = 15, lastRead = opRead\<rparr>,
                  currentToken = ''}''\<rparr>))"
proof -
  let ?c = "Map.empty :: string \<Rightarrow> 'n option"
  let ?P = "\<lambda>k lr tok. \<lparr>input = \<lparr>buf = ''{1:nnull nnull}'', off = k, lastRead = lr\<rparr>, currentToken = tok\<rparr>"
  have h1: "currentToken (?P 2 opInvalid []) \<noteq> ''}''" by simp
  have h2: "readNextToken (?P 2 opInvalid []) = Inr (True, ?P 3 opRead '':'')" by code_simp
  have h3: "currentToken (?P 3 opRead '':'') = '':''" by simp
  have h4: "readNextToken (?P 3 opRead '':'') = Inr (True, ?P 8 opRead ''null'')" by code_simp
  have h5: "readNextToken ((?P 8 opRead ''null'')\<lparr>currentToken := ''[''\<rparr>) = Inr (True, ?P 14 opRead ''null'')"
    by code_simp
  have h6: "currentToken (?P 14 opRead ''null'') \<noteq> ''[''" by simp
  have h5': "readNextToken (?P 8 opRead ''null'') = Inr (True, ?P 14 opRead ''null'')" by code_simp
  have h7: "readNextToken (?P 14 opRead ''null'') = Inr (True, ?P 15 opRead ''}'')" by code_simp
  note w = token_after_colon_discarded[OF h1 h2 h3 h4 h5 h6, of ?c "Suc 0" Map.empty "''[''"]
  have w': "objectLoop ?c (Suc (Suc 0)) Map.empty (?P 2 opInvalid []) =
     (case parseValue ?c (Suc 0) (?P 8 opRead ''['') of
        None \<Rightarrow> None
      | Some (Inl e) \<Rightarrow> Some (Inl e)
      | Some (Inr (v, p4)) \<Rightarrow>
          (case readNextToken p4 of
             Inl e \<Rightarrow> Some (Inl e)
           | Inr (ok4, p5) \<Rightarrow> objectLoop ?c (Suc 0) [[] \<mapsto> v] p5))"
    using w by (simp only: JSONParser.simps)
  have h5'': "readNextToken (?P 8 opRead ''['') = Inr (True, ?P 14 opRead ''null'')"
    using h5 by simp
  have r: "(case parseValue ?c (Suc 0) (?P 8 opRead ''['') of
        None \<Rightarrow> None
      | Some (Inl e) \<Rightarrow> Some (Inl e)
      | Some (Inr (v, p4)) \<Rightarrow>
          (case readNextToken p4 of
             Inl e \<Rightarrow> Some (Inl e)
           | Inr (ok4, p5) \<Rightarrow> objectLoop ?c (Suc 0) [[] \<mapsto> v] p5)) =
     Some (Inr (JSONValue ''object'' (MapValue [[] \<mapsto> JSONValue ''null'' NilValue]), ?P 15 opRead ''}''))"
    using h5'' h7 by (simp add: Let_def)
  show ?thesis using h4 h5' w' trans[OF w' r] by (intro conjI)
qed

text \<open>
  As stated, for every member, claim C9 fails. When the read at the start of
  \<open>parseValue\<close> stores nothing, the token read after \<open>:\<close> is still the current one and
  becomes the value: in \<open>{1:nnull nabcd}\<close> the token after \<open>:\<close> is \<open>null\<close>, the next
  read fails the literal check on \<open>nabcd\<close>, and the member is bound to the null value.
\<close>

theorem token_after_colon_used:
  "parseValue (Map.empty :: string \<Rightarrow> 'n option) (Suc (Suc (Suc (Suc (Suc 0))))) (NewJSONParser ''{1:nnull nabcd}'') =
     Some (Inr (JSONValue ''object'' (MapValue [[] \<mapsto> JSONValue ''null'' NilValue]),
                \<lparr>input = \<lparr>buf = ''{1:nnull nabcd}'', off = 15, lastRead = opRead\<rparr>,
                  currentToken = ''}''\<rparr>))
   \<and> readNextToken \<lparr>input = \<lparr>buf = ''{1:nnull nabcd}'', off = 3, lastRead = opRead\<rparr>,
                      currentToken = '':''\<rparr> =
     Inr (True, \<lparr>input = \<lparr>buf = ''{1:nnull nabcd}'', off = 8, lastRead = opRead\<rparr>,
                  currentToken = ''null''\<rparr>)"
proof -
  let ?c = "Map.empty :: string \<Rightarrow> 'n option"
  let ?P = "\<lambda>k lr tok. \<lparr>input = \<lparr>buf = ''{1:nnull nabcd}'', off = k, lastRead = lr\<rparr>, currentToken = tok\<rparr>"
  have s0: "readNextToken (NewJSONParser ''{1:nnull nabcd}'') = Inr (True, ?P 1 opRead ''{'')"
    and s1: "readNextToken (?P 1 opRead ''{'') = Inr (True, ?P 2 opInvalid [])"
    and s2: "readNextToken (?P 2 opInvalid []) = Inr (True, ?P 3 opRead '':'')"
    and s3: "readNextToken (?P 3 opRead '':'') = Inr (True, ?P 8 opRead ''null'')"
    and s4: "readNextToken (?P 8 opRead ''null'') = Inr (False, ?P 14 opRead ''null'')"
    and s5: "readNextToken (?P 14 opRead ''null'') = Inr (True, ?P 15 opRead ''}'')"
    by code_simp+
  have v: "parseValue ?c (Suc 0) (?P 8 opRead ''null'') =
      Some (Inr (JSONValue ''null'' NilValue, ?P 14 opRead ''null''))"
    using s4 by (simp add: Let_def)
  have l: "objectLoop ?c (Suc (Suc 0)) Map.empty (?P 2 opInvalid []) =
     Some (Inr (JSONValue ''object'' (MapValue [[] \<mapsto> JSONValue ''null'' NilValue]), ?P 15 opRead ''}''))"
    using s2 s3 v s5 by (subst objectLoop.simps(2)) (simp del: parseValue.simps add: Let_def)
  have o: "parseObject ?c (Suc (Suc (Suc 0))) (?P 1 opRead ''{'') =
     Some (Inr (JSONValue ''object'' (MapValue [[] \<mapsto> JSONValue ''null'' NilValue]), ?P 15 opRead ''}''))"
    using s1 l by (subst parseObject.simps(2)) (simp del: objectLoop.simps)
  have "parseValue ?c (Suc (Suc (Suc (Suc 0)))) (NewJSONParser ''{1:nnull nabcd}'') =
     Some (Inr (JSONValue ''object'' (MapValue [[] \<mapsto> JSONValue ''null'' NilValue]), ?P 15 opRead ''}''))"
    using s0 o by (subst parseValue.simps(2)) (simp del: parseObject.simps)
  from fuel_mono(1)[OF _ this, of "Suc (Suc (Suc (Suc (Suc 0))))"] s3
  show ?thesis by simp
qed

text \<open>
  Claim C10: when \<open>readNextToken\<close> returns false (the input is exhausted after the
  whitespace, or the byte is \<open>n\<close>, \<open>t\<close> or \<open>f\<close> and the literal check fails),
  \<open>currentToken\<close> is what it was before the call; no caller looks at the boolean, so
  \<open>parseValue\<close>, \<open>parseObject\<close> and \<open>parseArray\<close> go on with that stale token.

  In the theorem \<open>p\<close> is the parser before the call that returns false and \<open>p'\<close> the
  parser after it; each conjunct after the first two takes the call at one place of the
  source and says what the caller does with the token of \<open>p\<close>:
  \<^item> at the start of \<open>parseValue\<close>, the value is built from it;
  \<^item> at the start of \<open>parseObject\<close>, it is tested against \<open>}\<close> and, failing that, is
    the first key;
  \<^item> at the read of the separator, the key itself is compared with \<open>:\<close>;
  \<^item> at the read after the separator, \<open>parseValue\<close> is entered with \<open>:\<close> as the token;
  \<^item> at the read after a member's value (the value \<open>w\<close>, parsed from \<open>q2\<close>), the token
    the value ended on is tested against \<open>}\<close> and, failing that, is the next key;
  \<^item> at the start of \<open>parseArray\<close>, it is tested against \<open>}\<close>;
  \<^item> at the read after an element (the value \<open>w\<close>, parsed from \<open>q\<close>), the token the
    element ended on is tested against \<open>}\<close>.
\<close>

theorem stale_token_after_false:
  assumes "readNextToken p = Inr (False, p')"
  shows "currentToken p' = currentToken p
    \<and> (dropWhile isWhitespace (String (input p)) = [] \<or>
       hd (dropWhile isWhitespace (String (input p))) \<in> set ''ntf'')
    \<and> parseValue conv (Suc n) p =
        (let tok = currentToken p in
         if tok = ''null'' \<or> tok = ''true'' \<or> tok = ''false''
           then Some (Inr (JSONValue tok NilValue, p'))
         else if tok = ''{'' then parseObject conv n p'
         else if tok = ''['' then parseArray conv n p'
         else (case conv tok of
                 Some num \<Rightarrow> Some (Inr (JSONValue ''number'' (Float64 num), p'))
               | None \<Rightarrow> Some (Inr (JSONValue ''string'' (Str tok), p'))))
    \<and> parseObject conv (Suc (Suc n)) p =
        (if currentToken p \<noteq> ''}'' then
           (case readNextToken p' of
              Inl e \<Rightarrow> Some (Inl e)
            | Inr (ok1, p1) \<Rightarrow>
                if currentToken p1 \<noteq> '':'' then Some (Inl ExpectedColon)
                else
                  (case readNextToken p1 of
                     Inl e \<Rightarrow> Some (Inl e)
                   | Inr (ok2, p2) \<Rightarrow>
                       (case parseValue conv n p2 of
                          None \<Rightarrow> None
                        | Some (Inl e) \<Rightarrow> Some (Inl e)
                        | Some (Inr (v, p3)) \<Rightarrow>
                            (case readNextToken p3 of
                               Inl e \<Rightarrow> Some (Inl e)
                             | Inr (ok3, p4) \<Rightarrow>
                                 objectLoop conv n [currentToken p \<mapsto> v] p4))))
         else Some (Inr (JSONValue ''object'' (MapValue Map.empty), p')))
    \<and> (currentToken p \<noteq> ''}'' \<longrightarrow>
         objectLoop conv (Suc n) obj p =
           (if currentToken p \<noteq> '':'' then Some (Inl ExpectedColon)
            else
              (case readNextToken p' of
                 Inl e \<Rightarrow> Some (Inl e)
               | Inr (ok2, p2) \<Rightarrow>
                   (case parseValue conv n p2 of
                      None \<Rightarrow> None
                    | Some (Inl e) \<Rightarrow> Some (Inl e)
                    | Some (Inr (v, p3)) \<Rightarrow>
                        (case readNextToken p3 of
                           Inl e \<Rightarrow> Some (Inl e)
                         | Inr (ok3, p4) \<Rightarrow>
                             objectLoop conv n (obj(currentToken p \<mapsto> v)) p4)))))
    \<and> (currentToken q \<noteq> ''}'' \<and> readNextToken q = Inr (ok1, p) \<and> currentToken p = '':'' \<longrightarrow>
         currentToken p' = '':'' \<and>
         objectLoop conv (Suc n) obj q =
           (case parseValue conv n p' of
              None \<Rightarrow> None
            | Some (Inl e) \<Rightarrow> Some (Inl e)
            | Some (Inr (v, p3)) \<Rightarrow>
                (case readNextToken p3 of
                   Inl e \<Rightarrow> Some (Inl e)
                 | Inr (ok3, p4) \<Rightarrow> objectLoop conv n (obj(currentToken q \<mapsto> v)) p4)))
    \<and> (currentToken q \<noteq> ''}'' \<and> readNextToken q = Inr (ok1, q1) \<and> currentToken q1 = '':'' \<and>
       readNextToken q1 = Inr (ok2, q2) \<and> parseValue conv (Suc n) q2 = Some (Inr (w, p)) \<longrightarrow>
         objectLoop conv (Suc (Suc n)) obj q =
           (if currentToken p \<noteq> ''}'' then
              (case readNextToken p' of
                 Inl e \<Rightarrow> Some (Inl e)
               | Inr (ok1, p1) \<Rightarrow>
                   if currentToken p1 \<noteq> '':'' then Some (Inl ExpectedColon)
                   else
                     (case readNextToken p1 of
                        Inl e \<Rightarrow> Some (Inl e)
                      | Inr (ok2, p2) \<Rightarrow>
                          (case parseValue conv n p2 of
                             None \<Rightarrow> None
                           | Some (Inl e) \<Rightarrow> Some (Inl e)
                           | Some (Inr (v, p3)) \<Rightarrow>
                               (case readNextToken p3 of
                                  Inl e \<Rightarrow> Some (Inl e)
                                | Inr (ok3, p4) \<Rightarrow>
                                    objectLoop conv n
                                      (obj(currentToken q \<mapsto> w, currentToken p \<mapsto> v)) p4))))
            else Some (Inr (JSONValue ''object'' (MapValue (obj(currentToken q \<mapsto> w))), p'))))
    \<and> parseArray conv (Suc (Suc n)) p =
        (if currentToken p \<noteq> ''}'' then
           (case parseValue conv n p' of
              None \<Rightarrow> None
            | Some (Inl e) \<Rightarrow> Some (Inl e)
            | Some (Inr (v, p1)) \<Rightarrow>
                (case readNextToken p1 of
                   Inl e \<Rightarrow> Some (Inl e)
                 | Inr (ok, p2) \<Rightarrow> arrayLoop conv n [v] p2))
         else Some (Inr (JSONValue ''array'' (SliceValue []), p')))
    \<and> (currentToken q \<noteq> ''}'' \<and> parseValue conv (Suc n) q = Some (Inr (w, p)) \<longrightarrow>
         arrayLoop conv (Suc (Suc n)) arr q =
           (if currentToken p \<noteq> ''}'' then
              (case parseValue conv n p' of
                 None \<Rightarrow> None
               | Some (Inl e) \<Rightarrow> Some (Inl e)
               | Some (Inr (v, p1)) \<Rightarrow>
                   (case readNextToken p1 of
                      Inl e \<Rightarrow> Some (Inl e)
                    | Inr (ok, p2) \<Rightarrow> arrayLoop conv n (arr @ [w, v]) p2))
            else Some (Inr (JSONValue ''array'' (SliceValue (arr @ [w])), p'))))"
proof -
  note r = assms
  have t: "currentToken p' = currentToken p"
    using readNextToken_false_stale(1)[OF assms] .
  have s: "dropWhile isWhitespace (String (input p)) = [] \<or>
       hd (dropWhile isWhitespace (String (input p))) \<in> set ''ntf''"
    using readNextToken_false_stale(2)[OF assms] .
  have ol: "objectLoop conv (Suc m) ob p' =
     (if currentToken p \<noteq> ''}'' then
        (case readNextToken p' of
           Inl e \<Rightarrow> Some (Inl e)
         | Inr (ok1, p1) \<Rightarrow>
             if currentToken p1 \<noteq> '':'' then Some (Inl ExpectedColon)
             else
               (case readNextToken p1 of
                  Inl e \<Rightarrow> Some (Inl e)
                | Inr (ok2, p2) \<Rightarrow>
                    (case parseValue conv m p2 of
                       None \<Rightarrow> None
                     | Some (Inl e) \<Rightarrow> Some (Inl e)
                     | Some (Inr (v, p3)) \<Rightarrow>
                         (case readNextToken p3 of
                            Inl e \<Rightarrow> Some (Inl e)
                          | Inr (ok3, p4) \<Rightarrow> objectLoop conv m (ob(currentToken p \<mapsto> v)) p4))))
      else Some (Inr (JSONValue ''object'' (MapValue ob), p')))" for m ob
    by (subst objectLoop.simps(2)) (simp only: t Let_def)
  have al: "arrayLoop conv (Suc m) ar p' =
     (if currentToken p \<noteq> ''}'' then
        (case parseValue conv m p' of
           None \<Rightarrow> None
         | Some (Inl e) \<Rightarrow> Some (Inl e)
         | Some (Inr (v, p1)) \<Rightarrow>
             (case readNextToken p1 of
                Inl e \<Rightarrow> Some (Inl e)
              | Inr (ok, p2) \<Rightarrow> arrayLoop conv m (ar @ [v]) p2))
      else Some (Inr (JSONValue ''array'' (SliceValue ar), p')))" for m ar
    by (subst arrayLoop.simps(2)) (simp only: t)
  have al0: "arrayLoop conv (Suc m) [] p' =
     (if currentToken p \<noteq> ''}'' then
        (case parseValue conv m p' of
           None \<Rightarrow> None
         | Some (Inl e) \<Rightarrow> Some (Inl e)
         | Some (Inr (v, p1)) \<Rightarrow>
             (case readNextToken p1 of
                Inl e \<Rightarrow> Some (Inl e)
              | Inr (ok, p2) \<Rightarrow> arrayLoop conv m [v] p2))
      else Some (Inr (JSONValue ''array'' (SliceValue []), p')))" for m
    unfolding al by (simp cong: option.case_cong sum.case_cong prod.case_cong
        del: arrayLoop.simps parseValue.simps)
  have al1: "arrayLoop conv (Suc m) (arr @ [w]) p' =
     (if currentToken p \<noteq> ''}'' then
        (case parseValue conv m p' of
           None \<Rightarrow> None
         | Some (Inl e) \<Rightarrow> Some (Inl e)
         | Some (Inr (v, p1)) \<Rightarrow>
             (case readNextToken p1 of
                Inl e \<Rightarrow> Some (Inl e)
              | Inr (ok, p2) \<Rightarrow> arrayLoop conv m (arr @ [w, v]) p2))
      else Some (Inr (JSONValue ''array'' (SliceValue (arr @ [w])), p')))" for m
    unfolding al by (simp cong: option.case_cong sum.case_cong prod.case_cong
        del: arrayLoop.simps parseValue.simps)
  have c: "parseValue conv (Suc n) p =
        (let tok = currentToken p in
         if tok = ''null'' \<or> tok = ''true'' \<or> tok = ''false''
           then Some (Inr (JSONValue tok NilValue, p'))
         else if tok = ''{'' then parseObject conv n p'
         else if tok = ''['' then parseArray conv n p'
         else (case conv tok of
                 Some num \<Rightarrow> Some (Inr (JSONValue ''number'' (Float64 num), p'))
               | None \<Rightarrow> Some (Inr (JSONValue ''string'' (Str tok), p'))))"
    using t r by (simp add: Let_def split: option.splits)
  have d: "parseObject conv (Suc (Suc n)) p = objectLoop conv (Suc n) Map.empty p'"
    using r by (subst parseObject.simps(2)) (simp del: objectLoop.simps)
  have e: "currentToken p \<noteq> ''}'' \<Longrightarrow>
         objectLoop conv (Suc n) obj p =
           (if currentToken p \<noteq> '':'' then Some (Inl ExpectedColon)
            else
              (case readNextToken p' of
                 Inl e \<Rightarrow> Some (Inl e)
               | Inr (ok2, p2) \<Rightarrow>
                   (case parseValue conv n p2 of
                      None \<Rightarrow> None
                    | Some (Inl e) \<Rightarrow> Some (Inl e)
                    | Some (Inr (v, p3)) \<Rightarrow>
                        (case readNextToken p3 of
                           Inl e \<Rightarrow> Some (Inl e)
                         | Inr (ok3, p4) \<Rightarrow>
                             objectLoop conv n (obj(currentToken p \<mapsto> v)) p4))))"
    using r t by (subst objectLoop.simps(2)) (simp add: Let_def)
  have f: "currentToken q \<noteq> ''}'' \<Longrightarrow> readNextToken q = Inr (ok1, p) \<Longrightarrow> currentToken p = '':'' \<Longrightarrow>
         currentToken p' = '':'' \<and>
         objectLoop conv (Suc n) obj q =
           (case parseValue conv n p' of
              None \<Rightarrow> None
            | Some (Inl e) \<Rightarrow> Some (Inl e)
            | Some (Inr (v, p3)) \<Rightarrow>
                (case readNextToken p3 of
                   Inl e \<Rightarrow> Some (Inl e)
                 | Inr (ok3, p4) \<Rightarrow> objectLoop conv n (obj(currentToken q \<mapsto> v)) p4))"
    using r t by (subst objectLoop.simps(2)) (simp add: Let_def)
  have g: "currentToken q \<noteq> ''}'' \<Longrightarrow> readNextToken q = Inr (ok1, q1) \<Longrightarrow> currentToken q1 = '':'' \<Longrightarrow>
       readNextToken q1 = Inr (ok2, q2) \<Longrightarrow> parseValue conv (Suc n) q2 = Some (Inr (w, p)) \<Longrightarrow>
         objectLoop conv (Suc (Suc n)) obj q =
           objectLoop conv (Suc n) (obj(currentToken q \<mapsto> w)) p'"
    using r by (subst objectLoop.simps(2)) (simp del: objectLoop.simps parseValue.simps add: Let_def)
  have h: "parseArray conv (Suc (Suc n)) p = arrayLoop conv (Suc n) [] p'"
    using r by (subst parseArray.simps(2)) (simp del: arrayLoop.simps)
  have i: "currentToken q \<noteq> ''}'' \<Longrightarrow> parseValue conv (Suc n) q = Some (Inr (w, p)) \<Longrightarrow>
         arrayLoop conv (Suc (Suc n)) arr q = arrayLoop conv (Suc n) (arr @ [w]) p'"
    using r by (subst arrayLoop.simps(2)) (simp del: arrayLoop.simps parseValue.simps)
  show ?thesis
    apply (intro conjI impI)
    subgoal by (rule t)
    subgoal by (rule s)
    subgoal by (rule c)
    subgoal unfolding d ol by simp
    subgoal by (rule e)
    subgoal using f by blast
    subgoal using f by blast
    subgoal by (elim conjE) (rule trans[OF g ol]; assumption)
    subgoal unfolding h by (rule al0)
    subgoal by (elim conjE) (rule trans[OF i al1]; assumption)
    done
qed

theorem stale_token_after_false_witness:
  "readNextToken \<lparr>input = \<lparr>buf = ''}'', off = 1, lastRead = opRead\<rparr>, currentToken = ''}''\<rparr> =
     Inr (False, \<lparr>input = \<lparr>buf = ''}'', off = 1, lastRead = opRead\<rparr>, currentToken = ''}''\<rparr>)
   \<and> parseObject (Map.empty :: string \<Rightarrow> 'n option) (Suc (Suc 0))
       \<lparr>input = \<lparr>buf = ''}'', off = 1, lastRead = opRead\<rparr>, currentToken = ''}''\<rparr> =
     Some (Inr (JSONValue ''object'' (MapValue Map.empty),
                \<lparr>input = \<lparr>buf = ''}'', off = 1, lastRead = opRead\<rparr>, currentToken = ''}''\<rparr>))
   \<and> parseArray (Map.empty :: string \<Rightarrow> 'n option) (Suc (Suc 0))
       \<lparr>input = \<lparr>buf = ''}'', off = 1, lastRead = opRead\<rparr>, currentToken = ''}''\<rparr> =
     Some (Inr (JSONValue ''array'' (SliceValue []),
                \<lparr>input = \<lparr>buf = ''}'', off = 1, lastRead = opRead\<rparr>, currentToken = ''}''\<rparr>))
   \<and> readNextToken \<lparr>input = \<lparr>buf = ''nnull'', off = 5, lastRead = opRead\<rparr>, currentToken = ''null''\<rparr> =
     Inr (False, \<lparr>input = \<lparr>buf = ''nnull'', off = 5, lastRead = opRead\<rparr>, currentToken = ''null''\<rparr>)
   \<and> parseValue (Map.empty :: string \<Rightarrow> 'n option) (Suc 0)
       \<lparr>input = \<lparr>buf = ''nnull'', off = 5, lastRead = opRead\<rparr>, currentToken = ''null''\<rparr> =
     Some (Inr (JSONValue ''null'' NilValue,
                \<lparr>input = \<lparr>buf = ''nnull'', off = 5, lastRead = opRead\<rparr>, currentToken = ''null''\<rparr>))
   \<and> objectLoop (Map.empty :: string \<Rightarrow> 'n option) (Suc 0) Map.empty
       \<lparr>input = \<lparr>buf = ''nnull'', off = 5, lastRead = opRead\<rparr>, currentToken = ''null''\<rparr> =
     Some (Inl ExpectedColon)
   \<and> readNextToken \<lparr>input = \<lparr>buf = ''[1[}'', off = 4, lastRead = opRead\<rparr>, currentToken = ''}''\<rparr> =
     Inr (False, \<lparr>input = \<lparr>buf = ''[1[}'', off = 4, lastRead = opRead\<rparr>, currentToken = ''}''\<rparr>)
   \<and> arrayLoop (Map.empty :: string \<Rightarrow> 'n option) (Suc (Suc (Suc (Suc 0)))) []
       \<lparr>input = \<lparr>buf = ''[1[}'', off = 2, lastRead = opInvalid\<rparr>, currentToken = []\<rparr> =
     Some (Inr (JSONValue ''array'' (SliceValue [JSONValue ''array'' (SliceValue [])]),
                \<lparr>input = \<lparr>buf = ''[1[}'', off = 4, lastRead = opRead\<rparr>, currentToken = ''}''\<rparr>))
   \<and> readNextToken \<lparr>input = \<lparr>buf = ''{1:2[}'', off = 6, lastRead = opRead\<rparr>, currentToken = ''}''\<rparr> =
     Inr (False, \<lparr>input = \<lparr>buf = ''{1:2[}'', off = 6, lastRead = opRead\<rparr>, currentToken = ''}''\<rparr>)
   \<and> objectLoop (Map.empty :: string \<Rightarrow> 'n option) (Suc (Suc (Suc (Suc 0)))) Map.empty
       \<lparr>input = \<lparr>buf = ''{1:2[}'', off = 2, lastRead = opInvalid\<rparr>, currentToken = []\<rparr> =
     Some (Inr (JSONValue ''object'' (MapValue [[] \<mapsto> JSONValue ''array'' (SliceValue [])]),
                \<lparr>input = \<lparr>buf = ''{1:2[}'', off = 6, lastRead = opRead\<rparr>, currentToken = ''}''\<rparr>))"
proof -
  let ?c = "Map.empty :: string \<Rightarrow> 'n option"
  let ?E = "\<lparr>input = \<lparr>buf = ''}'', off = 1, lastRead = opRead\<rparr>, currentToken = ''}''\<rparr>"
  let ?N = "\<lparr>input = \<lparr>buf = ''nnull'', off = 5, lastRead = opRead\<rparr>, currentToken = ''null''\<rparr>"
  let ?A = "\<lambda>k lr tok. \<lparr>input = \<lparr>buf = ''[1[}'', off = k, lastRead = lr\<rparr>, currentToken = tok\<rparr>"
  let ?O = "\<lambda>k lr tok. \<lparr>input = \<lparr>buf = ''{1:2[}'', off = k, lastRead = lr\<rparr>, currentToken = tok\<rparr>"
  have hE: "readNextToken ?E = Inr (False, ?E)" by code_simp
  have hN: "readNextToken ?N = Inr (False, ?N)" by code_simp
  have hA: "readNextToken (?A 4 opRead ''}'') = Inr (False, ?A 4 opRead ''}'')" by code_simp
  have hO: "readNextToken (?O 6 opRead ''}'') = Inr (False, ?O 6 opRead ''}'')" by code_simp
  have a1: "readNextToken (?A 2 opInvalid []) = Inr (True, ?A 3 opRead ''['')"
    and a2: "readNextToken (?A 3 opRead ''['') = Inr (True, ?A 4 opRead ''}'')"
    by code_simp+
  have o1: "readNextToken (?O 2 opInvalid []) = Inr (True, ?O 3 opRead '':'')"
    and o2: "readNextToken (?O 3 opRead '':'') = Inr (True, ?O 4 opInvalid [])"
    and o3: "readNextToken (?O 4 opInvalid []) = Inr (True, ?O 5 opRead ''['')"
    and o4: "readNextToken (?O 5 opRead ''['') = Inr (True, ?O 6 opRead ''}'')"
    by code_simp+
  have pa: "parseArray ?c (Suc (Suc 0)) (?A 3 opRead ''['') =
      Some (Inr (JSONValue ''array'' (SliceValue []), ?A 4 opRead ''}''))"
    using a2 by simp
  have pvA: "parseValue ?c (Suc (Suc (Suc 0))) (?A 2 opInvalid []) =
      Some (Inr (JSONValue ''array'' (SliceValue []), ?A 4 opRead ''}''))"
    using a1 pa by (subst parseValue.simps(2)) (simp del: parseArray.simps)
  have po: "parseArray ?c (Suc (Suc 0)) (?O 5 opRead ''['') =
      Some (Inr (JSONValue ''array'' (SliceValue []), ?O 6 opRead ''}''))"
    using o4 by simp
  have pvO: "parseValue ?c (Suc (Suc (Suc 0))) (?O 4 opInvalid []) =
      Some (Inr (JSONValue ''array'' (SliceValue []), ?O 6 opRead ''}''))"
    using o3 po by (subst parseValue.simps(2)) (simp del: parseArray.simps)
  note tE = stale_token_after_false[OF hE, where conv = ?c and n = 0]
  note tN = stale_token_after_false[OF hN, where conv = ?c and n = 0 and obj = Map.empty]
  note tA = stale_token_after_false[OF hA, where conv = ?c and n = "Suc (Suc 0)"
      and q = "?A 2 opInvalid []" and w = "JSONValue ''array'' (SliceValue [])" and arr = "[]"]
  note tO = stale_token_after_false[OF hO, where conv = ?c and n = "Suc (Suc 0)"
      and q = "?O 2 opInvalid []" and ?ok1.0 = True and ?q1.0 = "?O 3 opRead '':''"
      and ?ok2.0 = True and ?q2.0 = "?O 4 opInvalid []"
      and w = "JSONValue ''array'' (SliceValue [])" and obj = Map.empty]
  have e1: "parseObject ?c (Suc (Suc 0)) ?E = Some (Inr (JSONValue ''object'' (MapValue Map.empty), ?E))"
    using tE[THEN conjunct2, THEN conjunct2, THEN conjunct2, THEN conjunct1]
    by (simp del: parseValue.simps parseObject.simps objectLoop.simps parseArray.simps arrayLoop.simps)
  have e2: "parseArray ?c (Suc (Suc 0)) ?E = Some (Inr (JSONValue ''array'' (SliceValue []), ?E))"
    using tE[THEN conjunct2, THEN conjunct2, THEN conjunct2, THEN conjunct2, THEN conjunct2,
             THEN conjunct2, THEN conjunct2, THEN conjunct1]
    by (simp del: parseValue.simps parseObject.simps objectLoop.simps parseArray.simps arrayLoop.simps)
  have n1: "parseValue ?c (Suc 0) ?N = Some (Inr (JSONValue ''null'' NilValue, ?N))"
    using tN[THEN conjunct2, THEN conjunct2, THEN conjunct1]
    by (simp del: parseValue.simps parseObject.simps objectLoop.simps parseArray.simps arrayLoop.simps
        add: Let_def)
  have n2: "objectLoop ?c (Suc 0) Map.empty ?N = Some (Inl ExpectedColon)"
    using tN[THEN conjunct2, THEN conjunct2, THEN conjunct2, THEN conjunct2, THEN conjunct1]
    by (simp del: parseValue.simps parseObject.simps objectLoop.simps parseArray.simps arrayLoop.simps)
  have a3: "arrayLoop ?c (Suc (Suc (Suc (Suc 0)))) [] (?A 2 opInvalid []) =
     Some (Inr (JSONValue ''array'' (SliceValue [JSONValue ''array'' (SliceValue [])]), ?A 4 opRead ''}''))"
    using tA[THEN conjunct2, THEN conjunct2, THEN conjunct2, THEN conjunct2, THEN conjunct2,
        THEN conjunct2, THEN conjunct2, THEN conjunct2] pvA
    by (simp del: parseValue.simps parseObject.simps objectLoop.simps parseArray.simps arrayLoop.simps)
  have o5: "objectLoop ?c (Suc (Suc (Suc (Suc 0)))) Map.empty (?O 2 opInvalid []) =
     Some (Inr (JSONValue ''object'' (MapValue [[] \<mapsto> JSONValue ''array'' (SliceValue [])]), ?O 6 opRead ''}''))"
    using tO[THEN conjunct2, THEN conjunct2, THEN conjunct2, THEN conjunct2, THEN conjunct2,
        THEN conjunct2, THEN conjunct1] o1 o2 pvO
    by (simp del: parseValue.simps parseObject.simps objectLoop.simps parseArray.simps arrayLoop.simps)
  show ?thesis using hE e1 e2 hN n1 n2 hA a3 hO o5 by (intro conjI)
qed

end
